theory Spec2Isabelle
  imports Main "HOL-Library.Sublist"
begin

section \<open>The directory persistence backend of taskflow\<close>

text \<open>
  A shallow embedding of \<open>taskflow/persistence/backends/impl_dir.py\<close>: the class
  \<open>Connection\<close> with its file cache, its process locks and the three tiers of stored
  entities (log books, flow details, task details).

  Every method of the source becomes a function from a state to a result and a new state.
  The state holds the file system, the file cache of the backend, the stack of locks the
  process holds and a log of every lock acquisition. A raised exception is the result
  \<open>Inl e\<close>; the state it comes with is the state at the point of the raise, since nothing
  the method did before is undone. A method \<open>_name\<close> of the source is the constant
  \<open>u_name\<close> here (a name cannot start with an underscore).
\<close>

subsection \<open>Exceptions\<close>

datatype errno = ENOENT | EEXIST | ENOTDIR | EISDIR | ELOOP | ENOERRNO

text \<open>
  \<open>NotFound\<close> and \<open>StorageError\<close> are the two subclasses of \<open>TaskFlowException\<close>
  the backend raises; a \<open>StorageError\<close> carries its cause. \<open>EnvironmentError\<close> is the
  class of the errors of the operating system, with its \<open>errno\<close>. \<open>ValueError\<close>
  is raised by the decoder on a file that does not hold the expected document and
  \<open>RuntimeError\<close> by \<open>validate\<close>.
\<close>

datatype exn =
    NotFound string
  | StorageError string exn
  | EnvironmentError errno
  | ValueError string
  | RuntimeError string

fun is_TaskFlowException :: "exn \<Rightarrow> bool" where
  "is_TaskFlowException (NotFound _) = True"
| "is_TaskFlowException (StorageError _ _) = True"
| "is_TaskFlowException _ = False"

subsection \<open>Entities and their stored documents\<close>

text \<open>
  The entity classes (\<open>taskflow.persistence.logbook\<close>) are not part of the sources at hand.
  Modelled from the spec: a task has an identifier, result and state fields and a metadata
  bag; a flow has an identifier, a metadata bag and its tasks; a book has an identifier, a
  creation and a last-updated time stamp, a metadata bag and its flows. The bags and
  fields are opaque strings. \<open>add\<close> appends a child, \<open>find\<close> returns the first child
  with the identifier or nothing, \<open>len\<close> counts the children.
\<close>

record task_detail =
  td_uuid :: string
  td_state :: string
  td_results :: string
  td_meta :: string

record flow_detail =
  fd_uuid :: string
  fd_meta :: string
  fd_tasks :: "task_detail list"

record logbook =
  lb_uuid :: string
  lb_meta :: string
  lb_created_at :: "int option"
  lb_updated_at :: "int option"
  lb_flows :: "flow_detail list"

definition fd_add :: "flow_detail \<Rightarrow> task_detail \<Rightarrow> flow_detail" where
  "fd_add fd td = fd\<lparr>fd_tasks := fd_tasks fd @ [td]\<rparr>"

definition fd_find :: "flow_detail \<Rightarrow> string \<Rightarrow> task_detail option" where
  "fd_find fd u = find (\<lambda>td. td_uuid td = u) (fd_tasks fd)"

definition lb_add :: "logbook \<Rightarrow> flow_detail \<Rightarrow> logbook" where
  "lb_add lb fd = lb\<lparr>lb_flows := lb_flows lb @ [fd]\<rparr>"

definition lb_find :: "logbook \<Rightarrow> string \<Rightarrow> flow_detail option" where
  "lb_find lb u = find (\<lambda>fd. fd_uuid fd = u) (lb_flows lb)"

text \<open>
  The content of a file. The serialisation helpers (\<open>p_utils.format_*\<close>,
  \<open>p_utils.unformat_*\<close>, \<open>jsonutils.dumps\<close>, \<open>misc.decode_json\<close>) are not part of
  the sources at hand. Modelled from the spec: entity serialization is an opaque pair
  \<open>encode(entity) -> bytes\<close>, \<open>decode(bytes) -> entity\<close>; a file holds the document of
  a task, of a flow, of a book, or anything else (\<open>Junk\<close>), and decoding a document of
  another kind raises.
\<close>

datatype document =
    TaskDoc string string string
  | FlowDoc string
  | BookDoc string int "int option"
  | Junk string

definition format_task_detail :: "task_detail \<Rightarrow> document" where
  "format_task_detail td = TaskDoc (td_state td) (td_results td) (td_meta td)"

fun unformat_task_detail :: "string \<Rightarrow> document \<Rightarrow> exn + task_detail" where
  "unformat_task_detail uuid (TaskDoc st res meta) =
     Inr \<lparr>td_uuid = uuid, td_state = st, td_results = res, td_meta = meta\<rparr>"
| "unformat_task_detail uuid _ = Inl (ValueError ''Expected JSON decodable data'')"

definition format_flow_detail :: "flow_detail \<Rightarrow> document" where
  "format_flow_detail fd = FlowDoc (fd_meta fd)"

fun unformat_flow_detail :: "string \<Rightarrow> document \<Rightarrow> exn + flow_detail" where
  "unformat_flow_detail uuid (FlowDoc meta) =
     Inr \<lparr>fd_uuid = uuid, fd_meta = meta, fd_tasks = []\<rparr>"
| "unformat_flow_detail uuid _ = Inl (ValueError ''Expected JSON decodable data'')"

text \<open>
  Modelled from the spec: \<open>created_at\<close> is set once, at first persistence, and never
  overwritten: \<open>format_logbook\<close> writes the creation time it is given, and the current
  time when it is given none.
\<close>

definition format_logbook :: "logbook \<Rightarrow> int option \<Rightarrow> int \<Rightarrow> document" where
  "format_logbook lb created_at now =
     (case created_at of
        Some c \<Rightarrow> BookDoc (lb_meta lb) c (Some now)
      | None \<Rightarrow> BookDoc (lb_meta lb) now None)"

fun unformat_logbook :: "string \<Rightarrow> document \<Rightarrow> exn + logbook" where
  "unformat_logbook uuid (BookDoc meta c u) =
     Inr \<lparr>lb_uuid = uuid, lb_meta = meta, lb_created_at = Some c, lb_updated_at = u,
          lb_flows = []\<rparr>"
| "unformat_logbook uuid _ = Inl (ValueError ''Expected JSON decodable data'')"

text \<open>
  The merge helpers (\<open>p_utils.*_merge\<close>) are not part of the sources at hand. Modelled from
  the spec: top-level scalar fields follow last-write-wins (the incoming value overwrites
  the stored value, except the immutable creation time stamp); the children of the stored
  version are kept. The union with the incoming children is the work of the callers below.
\<close>

definition task_details_merge :: "task_detail \<Rightarrow> task_detail \<Rightarrow> task_detail" where
  "task_details_merge td_e td_new =
     td_e\<lparr>td_state := td_state td_new, td_results := td_results td_new,
          td_meta := td_meta td_new\<rparr>"

definition flow_details_merge :: "flow_detail \<Rightarrow> flow_detail \<Rightarrow> flow_detail" where
  "flow_details_merge fd_e fd_new = fd_e\<lparr>fd_meta := fd_meta fd_new\<rparr>"

definition logbook_merge :: "logbook \<Rightarrow> logbook \<Rightarrow> logbook" where
  "logbook_merge lb_e lb_new = lb_e\<lparr>lb_meta := lb_meta lb_new\<rparr>"

subsection \<open>The file system\<close>

text \<open>
  A path is the list of its components, the root first. The file system binds paths to
  nodes; in a list with several bindings of a path the first one counts. A file has a
  modification time and a content. A symbolic link is a leaf: the backend creates links
  only as the entries of a child-index directory and opens no path through one, so a
  path that passes through a link, or a read at a link, is answered \<open>ELOOP\<close>.
\<close>

type_synonym path = "string list"

datatype node = Dir | File int document | Link path

type_synonym filesystem = "(path \<times> node) list"

definition node_at :: "filesystem \<Rightarrow> path \<Rightarrow> node option" where
  "node_at fsys p = (if p = [] then Some Dir else map_of fsys p)"

text \<open>Path resolution: every component before the last one must be a directory.\<close>

fun walk :: "filesystem \<Rightarrow> path \<Rightarrow> string list \<Rightarrow> errno + node" where
  "walk fsys cur [] =
     (case node_at fsys cur of None \<Rightarrow> Inl ENOENT | Some n \<Rightarrow> Inr n)"
| "walk fsys cur (c # cs) =
     (case node_at fsys cur of
        None \<Rightarrow> Inl ENOENT
      | Some Dir \<Rightarrow> walk fsys (cur @ [c]) cs
      | Some (File _ _) \<Rightarrow> Inl ENOTDIR
      | Some (Link _) \<Rightarrow> Inl ELOOP)"

definition lstat :: "filesystem \<Rightarrow> path \<Rightarrow> errno + node" where
  "lstat fsys p = walk fsys [] p"

definition bind_node :: "path \<Rightarrow> node \<Rightarrow> filesystem \<Rightarrow> filesystem" where
  "bind_node p n fsys = (p, n) # filter (\<lambda>(q, _). q \<noteq> p) fsys"

text \<open>\<open>os.path.getmtime\<close>. The time of a directory is not modelled: the only caller opens
  the path next, which fails on a directory before the time is used.\<close>

definition os_path_getmtime :: "filesystem \<Rightarrow> path \<Rightarrow> errno + int" where
  "os_path_getmtime fsys p =
     (case lstat fsys p of
        Inl e \<Rightarrow> Inl e
      | Inr (File m _) \<Rightarrow> Inr m
      | Inr Dir \<Rightarrow> Inr 0
      | Inr (Link _) \<Rightarrow> Inl ELOOP)"

text \<open>\<open>open(p, 'rb').read()\<close>\<close>

definition open_rb :: "filesystem \<Rightarrow> path \<Rightarrow> errno + document" where
  "open_rb fsys p =
     (case lstat fsys p of
        Inl e \<Rightarrow> Inl e
      | Inr (File _ d) \<Rightarrow> Inr d
      | Inr Dir \<Rightarrow> Inl EISDIR
      | Inr (Link _) \<Rightarrow> Inl ELOOP)"

text \<open>\<open>open(p, 'wb').write(d)\<close> at time \<open>now\<close>: the file is created in an existing
  directory, or replaced.\<close>

definition open_wb :: "filesystem \<Rightarrow> int \<Rightarrow> path \<Rightarrow> document \<Rightarrow> errno + filesystem" where
  "open_wb fsys now p d =
     (case lstat fsys p of
        Inr (File _ _) \<Rightarrow> Inr (bind_node p (File now d) fsys)
      | Inr Dir \<Rightarrow> Inl EISDIR
      | Inr (Link _) \<Rightarrow> Inl ELOOP
      | Inl ENOENT \<Rightarrow>
          (case lstat fsys (butlast p) of
             Inr Dir \<Rightarrow> Inr (bind_node p (File now d) fsys)
           | _ \<Rightarrow> Inl ENOENT)
      | Inl e \<Rightarrow> Inl e)"

definition entries :: "filesystem \<Rightarrow> path \<Rightarrow> string list" where
  "entries fsys p =
     remdups (map (\<lambda>(q, _). last q) (filter (\<lambda>(q, _). q \<noteq> [] \<and> butlast q = p) fsys))"

definition os_listdir :: "filesystem \<Rightarrow> path \<Rightarrow> errno + string list" where
  "os_listdir fsys p =
     (case lstat fsys p of
        Inl e \<Rightarrow> Inl e
      | Inr Dir \<Rightarrow> Inr (entries fsys p)
      | Inr (File _ _) \<Rightarrow> Inl ENOTDIR
      | Inr (Link _) \<Rightarrow> Inl ELOOP)"

definition os_path_islink :: "filesystem \<Rightarrow> path \<Rightarrow> bool" where
  "os_path_islink fsys p = (case lstat fsys p of Inr (Link _) \<Rightarrow> True | _ \<Rightarrow> False)"

definition os_path_isdir :: "filesystem \<Rightarrow> path \<Rightarrow> bool" where
  "os_path_isdir fsys p = (case lstat fsys p of Inr Dir \<Rightarrow> True | _ \<Rightarrow> False)"

text \<open>\<open>os.symlink(src, dst)\<close>: fails with \<open>EEXIST\<close> when anything is bound at \<open>dst\<close>.\<close>

definition os_symlink :: "filesystem \<Rightarrow> path \<Rightarrow> path \<Rightarrow> errno + filesystem" where
  "os_symlink fsys src dst =
     (case lstat fsys dst of
        Inr _ \<Rightarrow> Inl EEXIST
      | Inl ENOENT \<Rightarrow>
          (case lstat fsys (butlast dst) of
             Inr Dir \<Rightarrow> Inr (bind_node dst (Link src) fsys)
           | _ \<Rightarrow> Inl ENOENT)
      | Inl e \<Rightarrow> Inl e)"

text \<open>
  \<open>misc.ensure_tree\<close> is not part of the sources at hand. Modelled from the spec: it
  ensures that a directory exists, creating it and its missing parents, and succeeds when
  the directory is already there.
\<close>

fun makedirs :: "filesystem \<Rightarrow> path \<Rightarrow> string list \<Rightarrow> errno + filesystem" where
  "makedirs fsys cur [] = Inr fsys"
| "makedirs fsys cur (c # cs) =
     (case node_at fsys (cur @ [c]) of
        None \<Rightarrow> makedirs (bind_node (cur @ [c]) Dir fsys) (cur @ [c]) cs
      | Some Dir \<Rightarrow> makedirs fsys (cur @ [c]) cs
      | Some (File _ _) \<Rightarrow> Inl (if cs = [] then EEXIST else ENOTDIR)
      | Some (Link _) \<Rightarrow> Inl (if cs = [] then EEXIST else ELOOP))"

definition ensure_tree :: "filesystem \<Rightarrow> path \<Rightarrow> errno + filesystem" where
  "ensure_tree fsys p = makedirs fsys [] p"

text \<open>
  \<open>shutil.rmtree\<close> refuses a symbolic link (an \<open>OSError\<close> without \<open>errno\<close>), then lists
  the directory, which fails with \<open>ENOTDIR\<close> on a regular file and with \<open>ENOENT\<close> on
  a missing path; on a directory it removes everything below the path and the path.
\<close>

definition shutil_rmtree :: "filesystem \<Rightarrow> path \<Rightarrow> errno + filesystem" where
  "shutil_rmtree fsys p =
     (case lstat fsys p of
        Inl e \<Rightarrow> Inl e
      | Inr (Link _) \<Rightarrow> Inl ENOERRNO
      | Inr (File _ _) \<Rightarrow> Inl ENOTDIR
      | Inr Dir \<Rightarrow> Inr (filter (\<lambda>(q, _). \<not> prefix p q) fsys))"

subsection \<open>The state of a connection\<close>

text \<open>
  The four process locks. \<open>lock_utils.InterProcessLock\<close> is not part of the sources at
  hand. Modelled from the spec: \<open>with_lock(name, fn) -> fn()\<close>, one lock per name, released
  when the scope is left, by a return or by an exception. Waiting for another process is
  not modelled. \<open>held\<close> is the stack of the locks the process holds, innermost first;
  \<open>acquired\<close> logs every acquisition with the locks held at that moment.
\<close>

datatype lock_name = Lock_init | Lock_book | Lock_flow | Lock_task

type_synonym cache_info = "(int \<times> document) option"

record state =
  fs :: filesystem
  file_cache :: "path \<rightharpoonup> cache_info"
  held :: "lock_name list"
  acquired :: "(lock_name \<times> lock_name list) list"
  clock :: int

record connection =
  base_path :: path

definition u_flow_path :: "connection \<Rightarrow> path" where
  "u_flow_path self = base_path self @ [''flows'']"

definition u_task_path :: "connection \<Rightarrow> path" where
  "u_task_path self = base_path self @ [''tasks'']"

definition u_book_path :: "connection \<Rightarrow> path" where
  "u_book_path self = base_path self @ [''books'']"

definition lock_path :: "connection \<Rightarrow> path" where
  "lock_path self = base_path self @ [''locks'']"

subsection \<open>The file cache\<close>

text \<open>
  An entry of the cache is the dictionary \<open>cache_info\<close> of the source: empty (\<open>None\<close>)
  or holding \<open>mtime\<close> and \<open>data\<close>. \<open>setdefault\<close> leaves an empty dictionary behind when
  the path had no entry, also when the read that follows fails.
\<close>

definition u_read_from :: "path \<Rightarrow> state \<Rightarrow> (exn + document) \<times> state" where
  "u_read_from filename s =
     (case os_path_getmtime (fs s) filename of
        Inl e \<Rightarrow> (Inl (EnvironmentError e), s)
      | Inr mtime \<Rightarrow>
          (let cache_info = (case file_cache s filename of None \<Rightarrow> None | Some ci \<Rightarrow> ci);
               s1 = s\<lparr>file_cache := (file_cache s)(filename \<mapsto> cache_info)\<rparr>;
               reread =
                 (case open_rb (fs s1) filename of
                    Inl e \<Rightarrow> (Inl (EnvironmentError e), s1)
                  | Inr d \<Rightarrow>
                      (Inr d, s1\<lparr>file_cache := (file_cache s1)(filename \<mapsto> Some (mtime, d))\<rparr>))
           in case cache_info of
                None \<Rightarrow> reread
              | Some (m, d) \<Rightarrow> if mtime > m then reread else (Inr d, s1)))"

definition u_write_to :: "path \<Rightarrow> document \<Rightarrow> state \<Rightarrow> (exn + unit) \<times> state" where
  "u_write_to filename contents s =
     (case open_wb (fs s) (clock s) filename contents of
        Inl e \<Rightarrow> (Inl (EnvironmentError e), s)
      | Inr fsys \<Rightarrow> (Inr (), s\<lparr>fs := fsys, file_cache := (file_cache s)(filename := None)\<rparr>))"

subsection \<open>Running under a process lock\<close>

definition acquire :: "lock_name \<Rightarrow> state \<Rightarrow> state" where
  "acquire l s = s\<lparr>held := l # held s, acquired := acquired s @ [(l, held s)]\<rparr>"

definition release :: "state \<Rightarrow> state" where
  "release s = s\<lparr>held := tl (held s)\<rparr>"

definition u_run_with_process_lock ::
  "lock_name \<Rightarrow> (state \<Rightarrow> (exn + 'a) \<times> state) \<Rightarrow> state \<Rightarrow> (exn + 'a) \<times> state" where
  "u_run_with_process_lock name functor s =
     (case functor (acquire name s) of
        (Inr v, s1) \<Rightarrow> (Inr v, release s1)
      | (Inl e, s1) \<Rightarrow>
          (if is_TaskFlowException e then (Inl e, release s1)
           else (Inl (StorageError ''Storage backend internal error'' e), release s1)))"

subsection \<open>Helpers for the blocks the source repeats\<close>

fun is_EnvironmentError :: "exn \<Rightarrow> bool" where
  "is_EnvironmentError (EnvironmentError _) = True"
| "is_EnvironmentError _ = False"

fun is_NotFound :: "exn \<Rightarrow> bool" where
  "is_NotFound (NotFound _) = True"
| "is_NotFound _ = False"

text \<open>The listing of a child-index directory (lines 187-192 and 379-384): the names of
  the entries that are symbolic links; a missing directory is an empty listing, any
  other error is raised.\<close>

definition links_to_load :: "filesystem \<Rightarrow> path \<Rightarrow> exn + string list" where
  "links_to_load fsys p =
     (case os_listdir fsys p of
        Inl e \<Rightarrow> if e \<noteq> ENOENT then Inl (EnvironmentError e) else Inr []
      | Inr names \<Rightarrow> Inr (filter (\<lambda>f. os_path_islink fsys (p @ [f])) names))"

text \<open>The creation of the link of a child (lines 207-211 and 252-256): \<open>EEXIST\<close> is
  swallowed, any other error is raised.\<close>

definition link_child :: "path \<Rightarrow> path \<Rightarrow> state \<Rightarrow> (exn + unit) \<times> state" where
  "link_child src dst s =
     (case os_symlink (fs s) src dst of
        Inl e \<Rightarrow> if e \<noteq> EEXIST then (Inl (EnvironmentError e), s) else (Inr (), s)
      | Inr fsys \<Rightarrow> (Inr (), s\<lparr>fs := fsys\<rparr>))"

definition misc_ensure_tree :: "path \<Rightarrow> state \<Rightarrow> (exn + unit) \<times> state" where
  "misc_ensure_tree p s =
     (case ensure_tree (fs s) p of
        Inl e \<Rightarrow> (Inl (EnvironmentError e), s)
      | Inr fsys \<Rightarrow> (Inr (), s\<lparr>fs := fsys\<rparr>))"

subsection \<open>Task details\<close>

definition u_get_task_details_get ::
  "connection \<Rightarrow> string \<Rightarrow> state \<Rightarrow> (exn + task_detail) \<times> state" where
  "u_get_task_details_get self uuid s =
     (case u_read_from (u_task_path self @ [uuid]) s of
        (Inl e, s1) \<Rightarrow> (Inl e, s1)
      | (Inr td_data, s1) \<Rightarrow> (unformat_task_detail uuid td_data, s1))"

definition u_get_task_details ::
  "connection \<Rightarrow> string \<Rightarrow> bool \<Rightarrow> state \<Rightarrow> (exn + task_detail) \<times> state" where
  "u_get_task_details self uuid lock s =
     (if lock then u_run_with_process_lock Lock_task (u_get_task_details_get self uuid) s
      else u_get_task_details_get self uuid s)"

text \<open>The probe for an existing version (lines 146-152).\<close>

definition existing_task_details ::
  "connection \<Rightarrow> string \<Rightarrow> bool \<Rightarrow> state \<Rightarrow> (exn + task_detail option) \<times> state" where
  "existing_task_details self uuid ignore_missing s =
     (case u_get_task_details self uuid False s of
        (Inr e_td, s1) \<Rightarrow> (Inr (Some e_td), s1)
      | (Inl e, s1) \<Rightarrow>
          (if is_EnvironmentError e
           then (if \<not> ignore_missing
                 then (Inl (NotFound (''No task details found with id: '' @ uuid)), s1)
                 else (Inr None, s1))
           else (Inl e, s1)))"

definition u_save_task_details ::
  "connection \<Rightarrow> task_detail \<Rightarrow> bool \<Rightarrow> state \<Rightarrow> (exn + task_detail) \<times> state" where
  "u_save_task_details self task_detail ignore_missing s =
     (case existing_task_details self (td_uuid task_detail) ignore_missing s of
        (Inl e, s1) \<Rightarrow> (Inl e, s1)
      | (Inr e_td, s1) \<Rightarrow>
          (let task_detail =
                 (case e_td of
                    None \<Rightarrow> task_detail
                  | Some e \<Rightarrow> task_details_merge e task_detail);
               td_path = u_task_path self @ [td_uuid task_detail]
           in case u_write_to td_path (format_task_detail task_detail) s1 of
                (Inl e, s2) \<Rightarrow> (Inl e, s2)
              | (Inr _, s2) \<Rightarrow> (Inr task_detail, s2)))"

definition update_task_details ::
  "connection \<Rightarrow> task_detail \<Rightarrow> state \<Rightarrow> (exn + task_detail) \<times> state" where
  "update_task_details self task_detail s =
     u_run_with_process_lock Lock_task (u_save_task_details self task_detail False) s"

fun u_save_tasks_and_link ::
  "connection \<Rightarrow> task_detail list \<Rightarrow> path \<Rightarrow> state \<Rightarrow> (exn + unit) \<times> state" where
  "u_save_tasks_and_link self [] local_task_path s = (Inr (), s)"
| "u_save_tasks_and_link self (task_detail # task_details) local_task_path s =
     (case u_save_task_details self task_detail True s of
        (Inl e, s1) \<Rightarrow> (Inl e, s1)
      | (Inr _, s1) \<Rightarrow>
          (case link_child (u_task_path self @ [td_uuid task_detail])
                  (local_task_path @ [td_uuid task_detail]) s1 of
             (Inl e, s2) \<Rightarrow> (Inl e, s2)
           | (Inr _, s2) \<Rightarrow> u_save_tasks_and_link self task_details local_task_path s2))"

subsection \<open>Flow details\<close>

text \<open>The loop of lines 193-194. The tasks are read with the default \<open>lock=True\<close>.\<close>

fun load_tasks ::
  "connection \<Rightarrow> flow_detail \<Rightarrow> string list \<Rightarrow> state \<Rightarrow> (exn + flow_detail) \<times> state" where
  "load_tasks self fd [] s = (Inr fd, s)"
| "load_tasks self fd (t_uuid # td_to_load) s =
     (case u_get_task_details self t_uuid True s of
        (Inl e, s1) \<Rightarrow> (Inl e, s1)
      | (Inr td, s1) \<Rightarrow> load_tasks self (fd_add fd td) td_to_load s1)"

definition u_get_flow_details_get ::
  "connection \<Rightarrow> string \<Rightarrow> state \<Rightarrow> (exn + flow_detail) \<times> state" where
  "u_get_flow_details_get self uuid s =
     (let fd_path = u_flow_path self @ [uuid];
          meta_path = fd_path @ [''metadata'']
      in case u_read_from meta_path s of
           (Inl e, s1) \<Rightarrow> (Inl e, s1)
         | (Inr meta, s1) \<Rightarrow>
             (case unformat_flow_detail uuid meta of
                Inl e \<Rightarrow> (Inl e, s1)
              | Inr fd \<Rightarrow>
                  (case links_to_load (fs s1) (fd_path @ [''tasks'']) of
                     Inl e \<Rightarrow> (Inl e, s1)
                   | Inr td_to_load \<Rightarrow> load_tasks self fd td_to_load s1)))"

definition u_get_flow_details ::
  "connection \<Rightarrow> string \<Rightarrow> bool \<Rightarrow> state \<Rightarrow> (exn + flow_detail) \<times> state" where
  "u_get_flow_details self uuid lock s =
     (if lock then u_run_with_process_lock Lock_flow (u_get_flow_details_get self uuid) s
      else u_get_flow_details_get self uuid s)"

text \<open>The probe for an existing version (lines 215-221).\<close>

definition existing_flow_details ::
  "connection \<Rightarrow> string \<Rightarrow> bool \<Rightarrow> state \<Rightarrow> (exn + flow_detail option) \<times> state" where
  "existing_flow_details self uuid ignore_missing s =
     (case u_get_flow_details self uuid False s of
        (Inr e_fd, s1) \<Rightarrow> (Inr (Some e_fd), s1)
      | (Inl e, s1) \<Rightarrow>
          (if is_EnvironmentError e
           then (if \<not> ignore_missing
                 then (Inl (NotFound (''No flow details found with id: '' @ uuid)), s1)
                 else (Inr None, s1))
           else (Inl e, s1)))"

text \<open>The merge of lines 222-227: the stored version with the scalar fields of the incoming
  one, then every incoming task the result does not hold yet.\<close>

definition merge_flow_detail :: "flow_detail option \<Rightarrow> flow_detail \<Rightarrow> flow_detail" where
  "merge_flow_detail e_fd flow_detail =
     (case e_fd of
        None \<Rightarrow> flow_detail
      | Some e \<Rightarrow>
          foldl (\<lambda>e_fd td. if fd_find e_fd (td_uuid td) = None then fd_add e_fd td else e_fd)
            (flow_details_merge e flow_detail) (fd_tasks flow_detail))"

definition u_save_flow_details ::
  "connection \<Rightarrow> flow_detail \<Rightarrow> bool \<Rightarrow> state \<Rightarrow> (exn + flow_detail) \<times> state" where
  "u_save_flow_details self flow_detail ignore_missing s =
     (case existing_flow_details self (fd_uuid flow_detail) ignore_missing s of
        (Inl e, s1) \<Rightarrow> (Inl e, s1)
      | (Inr e_fd, s1) \<Rightarrow>
          (let flow_detail = merge_flow_detail e_fd flow_detail;
               flow_path = u_flow_path self @ [fd_uuid flow_detail]
           in case misc_ensure_tree flow_path s1 of
                (Inl e, s2) \<Rightarrow> (Inl e, s2)
              | (Inr _, s2) \<Rightarrow>
                  (case u_write_to (flow_path @ [''metadata''])
                          (format_flow_detail flow_detail) s2 of
                     (Inl e, s3) \<Rightarrow> (Inl e, s3)
                   | (Inr _, s3) \<Rightarrow>
                       (if length (fd_tasks flow_detail) \<noteq> 0
                        then (let task_path = flow_path @ [''tasks'']
                              in case misc_ensure_tree task_path s3 of
                                   (Inl e, s4) \<Rightarrow> (Inl e, s4)
                                 | (Inr _, s4) \<Rightarrow>
                                     (case u_run_with_process_lock Lock_task
                                             (u_save_tasks_and_link self
                                                (fd_tasks flow_detail) task_path) s4 of
                                        (Inl e, s5) \<Rightarrow> (Inl e, s5)
                                      | (Inr _, s5) \<Rightarrow> (Inr flow_detail, s5)))
                        else (Inr flow_detail, s3)))))"

definition update_flow_details ::
  "connection \<Rightarrow> flow_detail \<Rightarrow> state \<Rightarrow> (exn + flow_detail) \<times> state" where
  "update_flow_details self flow_detail s =
     u_run_with_process_lock Lock_flow (u_save_flow_details self flow_detail False) s"

fun u_save_flows_and_link ::
  "connection \<Rightarrow> flow_detail list \<Rightarrow> path \<Rightarrow> state \<Rightarrow> (exn + unit) \<times> state" where
  "u_save_flows_and_link self [] local_flow_path s = (Inr (), s)"
| "u_save_flows_and_link self (flow_detail # flow_details) local_flow_path s =
     (case u_save_flow_details self flow_detail True s of
        (Inl e, s1) \<Rightarrow> (Inl e, s1)
      | (Inr _, s1) \<Rightarrow>
          (case link_child (u_flow_path self @ [fd_uuid flow_detail])
                  (local_flow_path @ [fd_uuid flow_detail]) s1 of
             (Inl e, s2) \<Rightarrow> (Inl e, s2)
           | (Inr _, s2) \<Rightarrow> u_save_flows_and_link self flow_details local_flow_path s2))"

subsection \<open>Log books\<close>

text \<open>The loop of lines 385-386. The flows are read with the default \<open>lock=True\<close>.\<close>

fun load_flows ::
  "connection \<Rightarrow> logbook \<Rightarrow> string list \<Rightarrow> state \<Rightarrow> (exn + logbook) \<times> state" where
  "load_flows self lb [] s = (Inr lb, s)"
| "load_flows self lb (f_uuid # fd_uuids) s =
     (case u_get_flow_details self f_uuid True s of
        (Inl e, s1) \<Rightarrow> (Inl e, s1)
      | (Inr fd, s1) \<Rightarrow> load_flows self (lb_add lb fd) fd_uuids s1)"

definition u_get_logbook ::
  "connection \<Rightarrow> string \<Rightarrow> state \<Rightarrow> (exn + logbook) \<times> state" where
  "u_get_logbook self book_uuid s =
     (let book_path = u_book_path self @ [book_uuid];
          meta_path = book_path @ [''metadata'']
      in case u_read_from meta_path s of
           (Inl e, s1) \<Rightarrow>
             (if e = EnvironmentError ENOENT
              then (Inl (NotFound (''No logbook found with id: '' @ book_uuid)), s1)
              else (Inl e, s1))
         | (Inr meta, s1) \<Rightarrow>
             (case unformat_logbook book_uuid meta of
                Inl e \<Rightarrow> (Inl e, s1)
              | Inr lb \<Rightarrow>
                  (case links_to_load (fs s1) (book_path @ [''flows'']) of
                     Inl e \<Rightarrow> (Inl e, s1)
                   | Inr fd_uuids \<Rightarrow> load_flows self lb fd_uuids s1)))"

definition get_logbook ::
  "connection \<Rightarrow> string \<Rightarrow> state \<Rightarrow> (exn + logbook) \<times> state" where
  "get_logbook self book_uuid s =
     u_run_with_process_lock Lock_book (u_get_logbook self book_uuid) s"

text \<open>The probe for an existing version (lines 260-264).\<close>

definition existing_logbook ::
  "connection \<Rightarrow> string \<Rightarrow> state \<Rightarrow> (exn + logbook option) \<times> state" where
  "existing_logbook self uuid s =
     (case u_get_logbook self uuid s of
        (Inr e_lb, s1) \<Rightarrow> (Inr (Some e_lb), s1)
      | (Inl e, s1) \<Rightarrow> (if is_NotFound e then (Inr None, s1) else (Inl e, s1)))"

text \<open>The merge of lines 265-270.\<close>

definition merge_logbook :: "logbook option \<Rightarrow> logbook \<Rightarrow> logbook" where
  "merge_logbook e_lb book =
     (case e_lb of
        None \<Rightarrow> book
      | Some e \<Rightarrow>
          foldl (\<lambda>e_lb fd. if lb_find e_lb (fd_uuid fd) = None then lb_add e_lb fd else e_lb)
            (logbook_merge e book) (lb_flows book))"

definition u_save_logbook ::
  "connection \<Rightarrow> logbook \<Rightarrow> state \<Rightarrow> (exn + logbook) \<times> state" where
  "u_save_logbook self book s =
     (case existing_logbook self (lb_uuid book) s of
        (Inl e, s1) \<Rightarrow> (Inl e, s1)
      | (Inr e_lb, s1) \<Rightarrow>
          (let book = merge_logbook e_lb book;
               book_path = u_book_path self @ [lb_uuid book]
           in case misc_ensure_tree book_path s1 of
                (Inl e, s2) \<Rightarrow> (Inl e, s2)
              | (Inr _, s2) \<Rightarrow>
                  (let created_at =
                         (case e_lb of None \<Rightarrow> None | Some _ \<Rightarrow> lb_created_at book)
                   in case u_write_to (book_path @ [''metadata''])
                             (format_logbook book created_at (clock s2)) s2 of
                        (Inl e, s3) \<Rightarrow> (Inl e, s3)
                      | (Inr _, s3) \<Rightarrow>
                          (if length (lb_flows book) \<noteq> 0
                           then (let flow_path = book_path @ [''flows'']
                                 in case misc_ensure_tree flow_path s3 of
                                      (Inl e, s4) \<Rightarrow> (Inl e, s4)
                                    | (Inr _, s4) \<Rightarrow>
                                        (case u_run_with_process_lock Lock_flow
                                                (u_save_flows_and_link self
                                                   (lb_flows book) flow_path) s4 of
                                           (Inl e, s5) \<Rightarrow> (Inl e, s5)
                                         | (Inr _, s5) \<Rightarrow> (Inr book, s5)))
                           else (Inr book, s3)))))"

definition save_logbook ::
  "connection \<Rightarrow> logbook \<Rightarrow> state \<Rightarrow> (exn + logbook) \<times> state" where
  "save_logbook self book s =
     u_run_with_process_lock Lock_book (u_save_logbook self book) s"

subsection \<open>Enumerating the log books\<close>

text \<open>The loop of lines 122-126 of the generator \<open>_get_logbooks\<close>, run to its end as
  \<open>list(...)\<close> does: a book that raises \<open>NotFound\<close> is skipped.\<close>

fun load_logbooks ::
  "connection \<Rightarrow> string list \<Rightarrow> state \<Rightarrow> (exn + logbook list) \<times> state" where
  "load_logbooks self [] s = (Inr [], s)"
| "load_logbooks self (b_uuid # lb_uuids) s =
     (case u_get_logbook self b_uuid s of
        (Inl e, s1) \<Rightarrow>
          (if is_NotFound e then load_logbooks self lb_uuids s1 else (Inl e, s1))
      | (Inr lb, s1) \<Rightarrow>
          (case load_logbooks self lb_uuids s1 of
             (Inl e, s2) \<Rightarrow> (Inl e, s2)
           | (Inr lbs, s2) \<Rightarrow> (Inr (lb # lbs), s2)))"

definition u_get_logbooks ::
  "connection \<Rightarrow> state \<Rightarrow> (exn + logbook list) \<times> state" where
  "u_get_logbooks self s =
     (case os_listdir (fs s) (u_book_path self) of
        Inl e \<Rightarrow>
          (if e \<noteq> ENOENT then (Inl (EnvironmentError e), s)
           else load_logbooks self [] s)
      | Inr ds \<Rightarrow>
          load_logbooks self
            (filter (\<lambda>d. os_path_isdir (fs s) (u_book_path self @ [d])) ds) s)"

definition get_logbooks ::
  "connection \<Rightarrow> state \<Rightarrow> (exn + logbook list) \<times> state" where
  "get_logbooks self s =
     (case u_get_logbooks self s of
        (Inl e, s1) \<Rightarrow>
          (if is_EnvironmentError e
           then (Inl (StorageError ''Unable to fetch logbooks'' e), s1)
           else (Inl e, s1))
      | (Inr books, s1) \<Rightarrow> (Inr books, s1))"

subsection \<open>Set-up, clearing and validation\<close>

definition path_str :: "path \<Rightarrow> string" where
  "path_str p = concat (map (\<lambda>c. CHR ''/'' # c) p)"

fun validate_paths :: "path list \<Rightarrow> state \<Rightarrow> (exn + unit) \<times> state" where
  "validate_paths [] s = (Inr (), s)"
| "validate_paths (p # paths) s =
     (if \<not> os_path_isdir (fs s) p
      then (Inl (RuntimeError (''Missing required directory: '' @ path_str p)), s)
      else validate_paths paths s)"

definition validate :: "connection \<Rightarrow> state \<Rightarrow> (exn + unit) \<times> state" where
  "validate self s =
     validate_paths
       [base_path self, lock_path self, u_flow_path self, u_task_path self, u_book_path self] s"

fun ensure_paths :: "string \<Rightarrow> path list \<Rightarrow> state \<Rightarrow> (exn + unit) \<times> state" where
  "ensure_paths msg [] s = (Inr (), s)"
| "ensure_paths msg (p # paths) s =
     (case misc_ensure_tree p s of
        (Inl e, s1) \<Rightarrow>
          (if is_EnvironmentError e then (Inl (StorageError (msg @ path_str p) e), s1)
           else (Inl e, s1))
      | (Inr _, s1) \<Rightarrow> ensure_paths msg paths s1)"

definition upgrade_step_create :: "connection \<Rightarrow> state \<Rightarrow> (exn + unit) \<times> state" where
  "upgrade_step_create self s =
     ensure_paths ''Unable to create logbooks required child path ''
       [u_book_path self, u_flow_path self, u_task_path self] s"

definition upgrade :: "connection \<Rightarrow> state \<Rightarrow> (exn + unit) \<times> state" where
  "upgrade self s =
     (case ensure_paths ''Unable to create logbooks required path ''
             [base_path self, lock_path self] s of
        (Inl e, s1) \<Rightarrow> (Inl e, s1)
      | (Inr _, s1) \<Rightarrow> u_run_with_process_lock Lock_init (upgrade_step_create self) s1)"

fun clear_paths :: "path list \<Rightarrow> state \<Rightarrow> (exn + unit) \<times> state" where
  "clear_paths [] s = (Inr (), s)"
| "clear_paths (d # ds) s =
     (if os_path_isdir (fs s) d
      then (case shutil_rmtree (fs s) d of
              Inl e \<Rightarrow> (Inl (EnvironmentError e), s)
            | Inr fsys \<Rightarrow> clear_paths ds (s\<lparr>fs := fsys\<rparr>))
      else clear_paths ds s)"

definition clear_all_step_clear :: "connection \<Rightarrow> state \<Rightarrow> (exn + unit) \<times> state" where
  "clear_all_step_clear self s =
     clear_paths [u_book_path self, u_flow_path self, u_task_path self] s"

definition clear_all_step_task :: "connection \<Rightarrow> state \<Rightarrow> (exn + unit) \<times> state" where
  "clear_all_step_task self s =
     u_run_with_process_lock Lock_task (clear_all_step_clear self) s"

definition clear_all_step_flow :: "connection \<Rightarrow> state \<Rightarrow> (exn + unit) \<times> state" where
  "clear_all_step_flow self s =
     u_run_with_process_lock Lock_flow (clear_all_step_task self) s"

definition clear_all_step_book :: "connection \<Rightarrow> state \<Rightarrow> (exn + unit) \<times> state" where
  "clear_all_step_book self s =
     u_run_with_process_lock Lock_book (clear_all_step_flow self) s"

definition clear_all :: "connection \<Rightarrow> state \<Rightarrow> (exn + unit) \<times> state" where
  "clear_all self s = u_run_with_process_lock Lock_init (clear_all_step_book self) s"

subsection \<open>Destroying a log book\<close>

text \<open>The removal of a directory tree with its handler (lines 333-338, 345-350 and
  356-361): \<open>ENOENT\<close> is swallowed, any other error becomes a \<open>StorageError\<close>.\<close>

definition remove_tree :: "string \<Rightarrow> path \<Rightarrow> state \<Rightarrow> (exn + unit) \<times> state" where
  "remove_tree msg p s =
     (case shutil_rmtree (fs s) p of
        Inl e \<Rightarrow>
          (if e \<noteq> ENOENT
           then (Inl (StorageError (msg @ path_str p) (EnvironmentError e)), s)
           else (Inr (), s))
      | Inr fsys \<Rightarrow> (Inr (), s\<lparr>fs := fsys\<rparr>))"

fun u_destroy_tasks ::
  "connection \<Rightarrow> task_detail list \<Rightarrow> state \<Rightarrow> (exn + unit) \<times> state" where
  "u_destroy_tasks self [] s = (Inr (), s)"
| "u_destroy_tasks self (task_detail # task_details) s =
     (case remove_tree ''Unable to remove task directory ''
             (u_task_path self @ [td_uuid task_detail]) s of
        (Inl e, s1) \<Rightarrow> (Inl e, s1)
      | (Inr _, s1) \<Rightarrow> u_destroy_tasks self task_details s1)"

fun u_destroy_flows ::
  "connection \<Rightarrow> flow_detail list \<Rightarrow> state \<Rightarrow> (exn + unit) \<times> state" where
  "u_destroy_flows self [] s = (Inr (), s)"
| "u_destroy_flows self (flow_detail # flow_details) s =
     (case u_run_with_process_lock Lock_task
             (u_destroy_tasks self (fd_tasks flow_detail)) s of
        (Inl e, s1) \<Rightarrow> (Inl e, s1)
      | (Inr _, s1) \<Rightarrow>
          (case remove_tree ''Unable to remove flow directory ''
                  (u_flow_path self @ [fd_uuid flow_detail]) s1 of
             (Inl e, s2) \<Rightarrow> (Inl e, s2)
           | (Inr _, s2) \<Rightarrow> u_destroy_flows self flow_details s2))"

definition u_destroy_book :: "connection \<Rightarrow> string \<Rightarrow> state \<Rightarrow> (exn + unit) \<times> state" where
  "u_destroy_book self book_uuid s =
     (case u_get_logbook self book_uuid s of
        (Inl e, s1) \<Rightarrow> (Inl e, s1)
      | (Inr book, s1) \<Rightarrow>
          (case u_run_with_process_lock Lock_flow
                  (u_destroy_flows self (lb_flows book)) s1 of
             (Inl e, s2) \<Rightarrow> (Inl e, s2)
           | (Inr _, s2) \<Rightarrow>
               remove_tree ''Unable to remove book directory ''
                 (u_book_path self @ [lb_uuid book]) s2))"

definition destroy_logbook :: "connection \<Rightarrow> string \<Rightarrow> state \<Rightarrow> (exn + unit) \<times> state" where
  "destroy_logbook self book_uuid s =
     u_run_with_process_lock Lock_book (u_destroy_book self book_uuid) s"

section \<open>Notions used in the statements\<close>

text \<open>The cache holds nothing usable for a file modified at \<open>mtime\<close>: no entry, an empty
  entry, or an entry older than the file.\<close>

definition cache_miss :: "state \<Rightarrow> path \<Rightarrow> int \<Rightarrow> bool" where
  "cache_miss s p mtime =
     (case file_cache s p of
        None \<Rightarrow> True
      | Some None \<Rightarrow> True
      | Some (Some (m, _)) \<Rightarrow> mtime > m)"

text \<open>The lock acquisitions of a step from \<open>s\<close> to \<open>s'\<close>: the step leaves the stack of
  held locks as it found it, and every acquisition it logged is one of \<open>F h\<close>, where
  \<open>h\<close> is the stack at the start.\<close>

definition locks_within ::
  "(lock_name list \<Rightarrow> (lock_name \<times> lock_name list) set) \<Rightarrow> state \<Rightarrow> state \<Rightarrow> bool" where
  "locks_within F s s' \<longleftrightarrow>
     held s' = held s \<and>
     (\<exists>evs. acquired s' = acquired s @ evs \<and> set evs \<subseteq> F (held s))"

definition no_locks :: "lock_name list \<Rightarrow> (lock_name \<times> lock_name list) set" where
  "no_locks h = {}"

definition task_locks :: "lock_name list \<Rightarrow> (lock_name \<times> lock_name list) set" where
  "task_locks h = {(Lock_task, h)}"

definition flow_locks :: "lock_name list \<Rightarrow> (lock_name \<times> lock_name list) set" where
  "flow_locks h = {(Lock_flow, h), (Lock_task, Lock_flow # h)}"

definition book_locks :: "lock_name list \<Rightarrow> (lock_name \<times> lock_name list) set" where
  "book_locks h =
     {(Lock_book, h), (Lock_flow, Lock_book # h), (Lock_task, Lock_flow # Lock_book # h)}"

definition init_locks :: "lock_name list \<Rightarrow> (lock_name \<times> lock_name list) set" where
  "init_locks h =
     {(Lock_init, h), (Lock_book, Lock_init # h), (Lock_flow, Lock_book # Lock_init # h),
      (Lock_task, Lock_flow # Lock_book # Lock_init # h)}"

text \<open>The operations of a connection, the state an operation leaves (whether it returns
  or raises) and the lock acquisitions it logged.\<close>

datatype operation =
    Save_logbook logbook
  | Get_logbook string
  | Get_logbooks
  | Update_flow_details flow_detail
  | Update_task_details task_detail
  | Destroy_logbook string
  | Clear_all
  | Upgrade
  | Validate

fun state_after :: "connection \<Rightarrow> operation \<Rightarrow> state \<Rightarrow> state" where
  "state_after self (Save_logbook book) s = snd (save_logbook self book s)"
| "state_after self (Get_logbook uuid) s = snd (get_logbook self uuid s)"
| "state_after self Get_logbooks s = snd (get_logbooks self s)"
| "state_after self (Update_flow_details fd) s = snd (update_flow_details self fd s)"
| "state_after self (Update_task_details td) s = snd (update_task_details self td s)"
| "state_after self (Destroy_logbook uuid) s = snd (destroy_logbook self uuid s)"
| "state_after self Clear_all s = snd (clear_all self s)"
| "state_after self Upgrade s = snd (upgrade self s)"
| "state_after self Validate s = snd (validate self s)"

definition lock_log ::
  "connection \<Rightarrow> operation \<Rightarrow> state \<Rightarrow> (lock_name \<times> lock_name list) list" where
  "lock_log self op s = drop (length (acquired s)) (acquired (state_after self op s))"

text \<open>The position of a lock in the chain init, book, flow, task.\<close>

fun lock_rank :: "lock_name \<Rightarrow> nat" where
  "lock_rank Lock_init = 0"
| "lock_rank Lock_book = 1"
| "lock_rank Lock_flow = 2"
| "lock_rank Lock_task = 3"

text \<open>The children of a container as the backend finds them on disk: the names its own
  listing of the child-index directory returns.\<close>

definition child_links :: "filesystem \<Rightarrow> path \<Rightarrow> string set" where
  "child_links fsys p = (case links_to_load fsys p of Inr names \<Rightarrow> set names | Inl _ \<Rightarrow> {})"


text \<open>
  How saving changes the file system: a path is left as it is, or a link appears at a
  free path of \<open>L\<close>, or, at a path of \<open>A\<close>, a directory or a file appears at a free path
  or a file is replaced. Directories and links are never removed or replaced.
\<close>

definition evolves :: "path set \<Rightarrow> path set \<Rightarrow> filesystem \<Rightarrow> filesystem \<Rightarrow> bool" where
  "evolves A L fsys fsys' \<longleftrightarrow>
     (\<forall>q. node_at fsys' q = node_at fsys q \<or>
          (q \<in> L \<and> node_at fsys q = None \<and> (\<exists>t. node_at fsys' q = Some (Link t))) \<or>
          (q \<in> A \<and> (node_at fsys q = None \<or> (\<exists>m d. node_at fsys q = Some (File m d))) \<and>
           (node_at fsys' q = Some Dir \<or> (\<exists>m d. node_at fsys' q = Some (File m d)))))"

definition task_files :: "connection \<Rightarrow> path set" where
  "task_files self = {q. \<exists>u. q = u_task_path self @ [u]}"

definition flow_files :: "connection \<Rightarrow> path set" where
  "flow_files self =
     task_files self \<union> {q. prefix q (u_flow_path self)} \<union>
     {q. \<exists>f. q = u_flow_path self @ [f] \<or> q = u_flow_path self @ [f, ''metadata''] \<or>
             q = u_flow_path self @ [f, ''tasks'']}"

definition flow_slots :: "connection \<Rightarrow> path set" where
  "flow_slots self = {q. \<exists>f u. q = u_flow_path self @ [f, ''tasks'', u]}"

text \<open>The cache holds no stale content for a path: an entry with content is older than the
  file on disk, or holds the content of the file.\<close>

definition cache_coherent :: "state \<Rightarrow> path \<Rightarrow> bool" where
  "cache_coherent s p =
     (case file_cache s p of
        Some (Some (m', d')) \<Rightarrow>
          (case lstat (fs s) p of Inr (File m d) \<Rightarrow> m' < m \<or> d' = d | _ \<Rightarrow> True)
      | _ \<Rightarrow> True)"

subsection \<open>Example states\<close>

definition example_conn :: connection where
  "example_conn = \<lparr>base_path = [''r'']\<rparr>"

text \<open>The storage root after \<open>upgrade\<close>, with nothing stored.\<close>

definition example_fresh :: state where
  "example_fresh =
     \<lparr>fs = [([''r'', ''tasks''], Dir), ([''r'', ''flows''], Dir), ([''r'', ''books''], Dir),
            ([''r'', ''locks''], Dir), ([''r''], Dir)],
      file_cache = Map.empty, held = [], acquired = [], clock = 5\<rparr>"

definition example_task :: task_detail where
  "example_task = \<lparr>td_uuid = ''T1'', td_state = ''s'', td_results = ''r'', td_meta = ''m''\<rparr>"

text \<open>A task file on disk, modified at time 3, and an entry of the cache read at time 3
  that holds an older content.\<close>

definition example_cached :: state where
  "example_cached =
     \<lparr>fs = [([''r'', ''tasks'', ''T1''], File 3 (TaskDoc ''new'' ''r'' ''m''))] @ fs example_fresh,
      file_cache = [[''r'', ''tasks'', ''T1''] \<mapsto> Some (3, TaskDoc ''old'' ''r'' ''m'')],
      held = [], acquired = [], clock = 5\<rparr>"

definition example_flow :: flow_detail where
  "example_flow = \<lparr>fd_uuid = ''F1'', fd_meta = ''fm'', fd_tasks = [example_task]\<rparr>"

definition example_book :: logbook where
  "example_book =
     \<lparr>lb_uuid = ''B1'', lb_meta = ''bm'', lb_created_at = None, lb_updated_at = None,
      lb_flows = [example_flow]\<rparr>"


text \<open>The storage root after \<open>example_book\<close> was saved, and the same with a second book
  directory \<open>B0\<close> that holds no metadata file.\<close>

definition example_stored :: state where
  "example_stored = snd (save_logbook example_conn example_book example_fresh)"

definition example_two_books :: state where
  "example_two_books =
     example_stored\<lparr>fs := ([''r'', ''books'', ''B0''], Dir) # fs example_stored\<rparr>"

text \<open>A storage root that was never set up, and one whose books path is a regular file.\<close>

definition example_empty :: state where
  "example_empty = example_fresh\<lparr>fs := []\<rparr>"

definition example_books_file :: state where
  "example_books_file = example_fresh\<lparr>fs := [([''r'', ''books''], File 1 (Junk ''x'')), ([''r''], Dir)]\<rparr>"

text \<open>A stored flow \<open>F1\<close> with the tasks \<open>A\<close> and \<open>B\<close>, and a payload for the same flow
  that references the task \<open>C\<close> only.\<close>

definition example_task_named :: "string \<Rightarrow> task_detail" where
  "example_task_named u = \<lparr>td_uuid = u, td_state = ''s'', td_results = ''r'', td_meta = ''m''\<rparr>"

definition example_flow_ab :: state where
  "example_flow_ab =
     snd (u_save_flow_details example_conn
            \<lparr>fd_uuid = ''F1'', fd_meta = ''fm'',
             fd_tasks = [example_task_named ''A'', example_task_named ''B'']\<rparr>
            True example_fresh)"


text \<open>The same book as \<open>example_book\<close>, carrying another creation time and another
  metadata bag.\<close>

definition example_book_later :: logbook where
  "example_book_later = example_book\<lparr>lb_created_at := Some 99, lb_meta := ''bm2''\<rparr>"

text \<open>A flow without tasks.\<close>

definition example_flow_empty :: flow_detail where
  "example_flow_empty = \<lparr>fd_uuid = ''F1'', fd_meta = ''fm'', fd_tasks = []\<rparr>"

text \<open>The book \<open>example_book\<close> without its flow.\<close>

definition example_book_empty :: logbook where
  "example_book_empty = example_book\<lparr>lb_flows := []\<rparr>"

section \<open>Properties\<close>

subsection \<open>Path resolution\<close>

lemma map_of_filter_key:
  "map_of (filter (\<lambda>(k, _). P k) xs) q = (if P q then map_of xs q else None)"
  by (induction xs) auto

lemma node_at_bind_node:
  "p \<noteq> [] \<Longrightarrow> node_at (bind_node p n fsys) q = (if q = p then Some n else node_at fsys q)"
  by (simp add: node_at_def bind_node_def map_of_filter_key)

lemma walk_resolves:
  "walk fsys cur rest = Inr n \<longleftrightarrow>
     node_at fsys (cur @ rest) = Some n \<and>
     (\<forall>q. prefix cur q \<and> strict_prefix q (cur @ rest) \<longrightarrow> node_at fsys q = Some Dir)"
proof (induction rest arbitrary: cur)
  case Nil
  show ?case by (auto split: option.splits simp: strict_prefix_def)
next
  case (Cons c cs)
  have step: "(\<forall>q. prefix cur q \<and> strict_prefix q (cur @ c # cs) \<longrightarrow> node_at fsys q = Some Dir)
     \<longleftrightarrow> node_at fsys cur = Some Dir \<and>
        (\<forall>q. prefix (cur @ [c]) q \<and> strict_prefix q ((cur @ [c]) @ cs) \<longrightarrow> node_at fsys q = Some Dir)"
    (is "?L \<longleftrightarrow> ?R")
  proof
    assume l: ?L
    have "node_at fsys cur = Some Dir" using l by (auto simp: strict_prefix_def)
    moreover have "\<And>q. prefix (cur @ [c]) q \<Longrightarrow> prefix cur q"
      using append_prefixD by blast
    ultimately show ?R using l by auto
  next
    assume r: ?R
    show ?L
    proof (intro allI impI)
      fix q assume q: "prefix cur q \<and> strict_prefix q (cur @ c # cs)"
      show "node_at fsys q = Some Dir"
      proof (cases "q = cur")
        case True then show ?thesis using r by simp
      next
        case False
        then obtain zs where zs: "q = cur @ zs" "zs \<noteq> []" using q by (auto simp: prefix_def)
        then have "strict_prefix zs (c # cs)" using q by (auto simp: strict_prefix_def)
        then have "prefix [c] zs" using zs by (cases zs) (auto simp: strict_prefix_def)
        then have "prefix (cur @ [c]) q" using zs by simp
        then show ?thesis using r q by simp
      qed
    qed
  qed
  show ?case
    using Cons.IH [of "cur @ [c]"] step
    by (auto split: option.splits node.splits)
qed

lemma lstat_resolves:
  "lstat fsys p = Inr n \<longleftrightarrow>
     node_at fsys p = Some n \<and> (\<forall>q. strict_prefix q p \<longrightarrow> node_at fsys q = Some Dir)"
  unfolding lstat_def using walk_resolves [of fsys "[]" p n] by simp

lemma walk_cong:
  "(\<And>q. prefix cur q \<Longrightarrow> prefix q (cur @ rest) \<Longrightarrow> node_at fsys q = node_at fsys' q) \<Longrightarrow>
   walk fsys cur rest = walk fsys' cur rest"
proof (induction rest arbitrary: cur)
  case Nil
  then show ?case by simp
next
  case (Cons c cs)
  have a: "node_at fsys cur = node_at fsys' cur" using Cons.prems by simp
  have b: "walk fsys (cur @ [c]) cs = walk fsys' (cur @ [c]) cs"
  proof (rule Cons.IH)
    fix q assume "prefix (cur @ [c]) q" "prefix q ((cur @ [c]) @ cs)"
    then show "node_at fsys q = node_at fsys' q"
      using Cons.prems [of q] append_prefixD by fastforce
  qed
  show ?case using a b by (simp split: option.splits node.splits)
qed

lemma lstat_cong:
  "(\<And>q. prefix q p \<Longrightarrow> node_at fsys q = node_at fsys' q) \<Longrightarrow> lstat fsys p = lstat fsys' p"
  unfolding lstat_def by (rule walk_cong) simp

lemma strict_prefix_butlast:
  "p \<noteq> [] \<Longrightarrow> strict_prefix q p \<longleftrightarrow> prefix q (butlast p)"
proof -
  assume "p \<noteq> []"
  then obtain ys y where p: "p = ys @ [y]" by (cases p rule: rev_cases) auto
  have "prefix q ys \<Longrightarrow> q \<noteq> ys @ [y]" using prefix_length_le by fastforce
  then show ?thesis unfolding p by (auto simp: strict_prefix_def prefix_snoc)
qed

lemma lstat_root [simp]: "lstat fsys [] = Inr Dir"
  by (simp add: lstat_def node_at_def)

lemma lstat_parent:
  assumes "p \<noteq> []"
  shows "lstat fsys p = Inr n \<longleftrightarrow> lstat fsys (butlast p) = Inr Dir \<and> node_at fsys p = Some n"
proof -
  have "(\<forall>q. strict_prefix q p \<longrightarrow> node_at fsys q = Some Dir) \<longleftrightarrow>
        (\<forall>q. prefix q (butlast p) \<longrightarrow> node_at fsys q = Some Dir)"
    using strict_prefix_butlast[OF assms] by simp
  also have "\<dots> \<longleftrightarrow> lstat fsys (butlast p) = Inr Dir"
    unfolding lstat_resolves by (auto simp: strict_prefix_def)
  finally show ?thesis unfolding lstat_resolves by auto
qed

lemma lstat_bind_node_other:
  assumes "p \<noteq> []" "\<not> prefix p q"
  shows "lstat (bind_node p n fsys) q = lstat fsys q"
proof (rule lstat_cong)
  fix r assume "prefix r q"
  then have "r \<noteq> p" using assms by auto
  then show "node_at (bind_node p n fsys) r = node_at fsys r"
    using assms by (simp add: node_at_bind_node)
qed

lemma lstat_bind_node_same:
  assumes "lstat fsys (butlast p) = Inr Dir" "p \<noteq> []"
  shows "lstat (bind_node p n fsys) p = Inr n"
proof -
  have "\<not> prefix p (butlast p)" using assms(2)
    by (metis append_butlast_last_id prefix_length_le length_append_singleton lessI not_less)
  then have "lstat (bind_node p n fsys) (butlast p) = Inr Dir"
    using assms by (simp add: lstat_bind_node_other)
  then show ?thesis using assms by (simp add: lstat_parent node_at_bind_node)
qed

lemma open_wb_result:
  assumes "open_wb fsys now p d = Inr fsys'"
  shows "fsys' = bind_node p (File now d) fsys \<and> p \<noteq> [] \<and> lstat fsys (butlast p) = Inr Dir"
proof -
  have ne: "p \<noteq> []" using assms by (auto simp: open_wb_def)
  show ?thesis using assms ne lstat_parent[of p fsys]
    by (auto simp: open_wb_def split: sum.splits node.splits errno.splits)
qed

lemma open_rb_file: "open_rb fsys p = Inr d \<longleftrightarrow> (\<exists>m. lstat fsys p = Inr (File m d))"
  by (auto simp: open_rb_def split: sum.splits node.splits)

subsection \<open>The file cache\<close>

lemma read_from_miss:
  assumes "lstat (fs s) p = Inr (File mtime d)" "cache_miss s p mtime"
  shows "u_read_from p s = (Inr d, s\<lparr>file_cache := (file_cache s)(p \<mapsto> Some (mtime, d))\<rparr>)"
  using assms
  by (auto simp: u_read_from_def cache_miss_def os_path_getmtime_def open_rb_def Let_def
      split: option.splits)

lemma read_from_hit:
  assumes "lstat (fs s) p = Inr (File mtime d)" "file_cache s p = Some (Some (m, c))"
    "\<not> mtime > m"
  shows "u_read_from p s = (Inr c, s)"
proof -
  have "(file_cache s)(p \<mapsto> Some (m, c)) = file_cache s"
    using assms(2) by (simp add: map_upd_triv)
  then show ?thesis
    using assms by (simp add: u_read_from_def os_path_getmtime_def Let_def)
qed

lemma write_to_result:
  assumes "u_write_to p contents s = (Inr (), s')"
  shows "s' = s\<lparr>fs := bind_node p (File (clock s) contents) (fs s),
                 file_cache := (file_cache s)(p := None)\<rparr>"
    and "p \<noteq> []" and "lstat (fs s) (butlast p) = Inr Dir"
  using assms open_wb_result[of "fs s" "clock s" p contents]
  by (auto simp: u_write_to_def split: sum.splits)

text \<open>
  Claim C8. A read of a file on disk re-reads the content and refreshes the entry when the
  cache holds nothing for the path (no entry, or the empty entry a failed read left) or
  when the file is strictly newer than the cached time; otherwise it returns the cached
  content and changes nothing. A write that returns has put the content on disk and
  removed the entry of the path, so the next read returns that content from disk.
\<close>

theorem file_cache_read_write:
  "(lstat (fs s) p = Inr (File mtime d) \<and> cache_miss s p mtime \<longrightarrow>
      u_read_from p s = (Inr d, s\<lparr>file_cache := (file_cache s)(p \<mapsto> Some (mtime, d))\<rparr>)) \<and>
   (lstat (fs s) p = Inr (File mtime d) \<and> file_cache s p = Some (Some (m, c)) \<and> \<not> mtime > m \<longrightarrow>
      u_read_from p s = (Inr c, s)) \<and>
   (u_write_to p contents s = (Inr (), s') \<longrightarrow>
      lstat (fs s') p = Inr (File (clock s) contents) \<and> file_cache s' p = None \<and>
      fst (u_read_from p s') = Inr contents)"
proof -
  have w: "lstat (fs s') p = Inr (File (clock s) contents) \<and> file_cache s' p = None \<and>
      fst (u_read_from p s') = Inr contents" if "u_write_to p contents s = (Inr (), s')"
  proof -
    have l: "lstat (fs s') p = Inr (File (clock s) contents)"
      using write_to_result[OF that] by (simp add: lstat_bind_node_same)
    have c: "file_cache s' p = None" using write_to_result(1)[OF that] by simp
    have "cache_miss s' p (clock s)" using c by (simp add: cache_miss_def)
    then show ?thesis using l c read_from_miss[OF l] by simp
  qed
  show ?thesis using read_from_miss read_from_hit w by blast
qed

theorem file_cache_read_write_witness:
  "u_read_from [''r'', ''tasks'', ''T1''] (example_cached\<lparr>file_cache := Map.empty\<rparr>) =
     (Inr (TaskDoc ''new'' ''r'' ''m''),
      example_cached\<lparr>file_cache := [[''r'', ''tasks'', ''T1''] \<mapsto> Some (3, TaskDoc ''new'' ''r'' ''m'')]\<rparr>) \<and>
   u_read_from [''r'', ''tasks'', ''T1''] example_cached =
     (Inr (TaskDoc ''old'' ''r'' ''m''), example_cached) \<and>
   fst (u_read_from [''r'', ''tasks'', ''T1'']
          (snd (u_write_to [''r'', ''tasks'', ''T1''] (Junk ''x'') example_cached))) = Inr (Junk ''x'')"
proof -
  let ?p = "[''r'', ''tasks'', ''T1'']"
  have l: "lstat (fs example_cached) ?p = Inr (File 3 (TaskDoc ''new'' ''r'' ''m''))"
    by code_simp
  have m: "cache_miss (example_cached\<lparr>file_cache := Map.empty\<rparr>) ?p 3"
    by (simp add: cache_miss_def)
  have h: "file_cache example_cached ?p = Some (Some (3, TaskDoc ''old'' ''r'' ''m''))"
    by (simp add: example_cached_def)
  have w: "fst (u_write_to ?p (Junk ''x'') example_cached) = Inr ()"
    by code_simp
  then have w': "u_write_to ?p (Junk ''x'') example_cached =
      (Inr (), snd (u_write_to ?p (Junk ''x'') example_cached))"
    by (simp add: prod_eq_iff)
  show ?thesis
    using file_cache_read_write[of "example_cached\<lparr>file_cache := Map.empty\<rparr>" ?p 3
        "TaskDoc ''new'' ''r'' ''m''"] l m
      file_cache_read_write[of example_cached ?p 3 "TaskDoc ''new'' ''r'' ''m''" 3
        "TaskDoc ''old'' ''r'' ''m''"] h
      file_cache_read_write[of example_cached ?p _ _ _ _ "Junk ''x''"
        "snd (u_write_to ?p (Junk ''x'') example_cached)"] w'
    by simp
qed

subsection \<open>Running under a process lock\<close>

text \<open>
  Claim C5. For every function run under \<open>_run_with_process_lock\<close>: a value it returns
  is returned unchanged; a \<open>TaskFlowException\<close> it raises (\<open>NotFound\<close>,
  \<open>StorageError\<close>) is raised unchanged; any other exception it raises reaches the caller
  as a \<open>StorageError\<close> that carries the original exception. In each case the lock is
  released.
\<close>

theorem run_with_process_lock_outcome:
  "(functor (acquire name s) = (Inr v, s1) \<longrightarrow>
      u_run_with_process_lock name functor s = (Inr v, release s1)) \<and>
   (functor (acquire name s) = (Inl e, s1) \<and> is_TaskFlowException e \<longrightarrow>
      u_run_with_process_lock name functor s = (Inl e, release s1)) \<and>
   (functor (acquire name s) = (Inl e, s1) \<and> \<not> is_TaskFlowException e \<longrightarrow>
      u_run_with_process_lock name functor s =
        (Inl (StorageError ''Storage backend internal error'' e), release s1))"
  by (simp add: u_run_with_process_lock_def)

theorem run_with_process_lock_outcome_witness:
  "fst (u_run_with_process_lock Lock_task
          (u_save_task_details example_conn example_task True) example_fresh) = Inr example_task \<and>
   fst (u_run_with_process_lock Lock_book (u_get_logbook example_conn ''B1'') example_fresh) =
     Inl (NotFound ''No logbook found with id: B1'') \<and>
   fst (u_run_with_process_lock Lock_task
          (u_get_task_details_get example_conn ''T1'') example_fresh) =
     Inl (StorageError ''Storage backend internal error'' (EnvironmentError ENOENT))"
proof -
  let ?f1 = "u_save_task_details example_conn example_task True"
  let ?f2 = "u_get_logbook example_conn ''B1''"
  let ?f3 = "u_get_task_details_get example_conn ''T1''"
  have a1: "fst (?f1 (acquire Lock_task example_fresh)) = Inr example_task" by code_simp
  have a2: "fst (?f2 (acquire Lock_book example_fresh)) = Inl (NotFound ''No logbook found with id: B1'')"
    by code_simp
  have a3: "fst (?f3 (acquire Lock_task example_fresh)) = Inl (EnvironmentError ENOENT)"
    by code_simp
  have b1: "?f1 (acquire Lock_task example_fresh) = (Inr example_task, snd (?f1 (acquire Lock_task example_fresh)))"
    using a1 by (simp add: prod_eq_iff)
  have b2: "?f2 (acquire Lock_book example_fresh) =
      (Inl (NotFound ''No logbook found with id: B1''), snd (?f2 (acquire Lock_book example_fresh)))"
    using a2 by (simp add: prod_eq_iff)
  have b3: "?f3 (acquire Lock_task example_fresh) =
      (Inl (EnvironmentError ENOENT), snd (?f3 (acquire Lock_task example_fresh)))"
    using a3 by (simp add: prod_eq_iff)
  show ?thesis
    using run_with_process_lock_outcome[of ?f1 Lock_task example_fresh example_task
        "snd (?f1 (acquire Lock_task example_fresh))"] b1
      run_with_process_lock_outcome[of ?f2 Lock_book example_fresh _
        "snd (?f2 (acquire Lock_book example_fresh))" "NotFound ''No logbook found with id: B1''"] b2
      run_with_process_lock_outcome[of ?f3 Lock_task example_fresh _
        "snd (?f3 (acquire Lock_task example_fresh))" "EnvironmentError ENOENT"] b3
    by simp
qed

subsection \<open>Lock acquisitions\<close>

lemma locks_within_refl: "locks_within F s s"
  by (simp add: locks_within_def)

lemma locks_within_trans:
  "locks_within F s s1 \<Longrightarrow> locks_within F s1 s2 \<Longrightarrow> locks_within F s s2"
  by (auto simp: locks_within_def)

lemma locks_within_mono:
  "locks_within F s s' \<Longrightarrow> (\<And>h. F h \<subseteq> G h) \<Longrightarrow> locks_within G s s'"
  by (auto simp: locks_within_def)

lemma locks_within_same:
  "held s' = held s \<Longrightarrow> acquired s' = acquired s \<Longrightarrow> locks_within F s s'"
  by (simp add: locks_within_def)

lemma locks_within_lock:
  assumes run: "u_run_with_process_lock name f s = (r, s')"
    and f: "\<And>r1 s1. f (acquire name s) = (r1, s1) \<Longrightarrow> locks_within F (acquire name s) s1"
  shows "locks_within (\<lambda>h. insert (name, h) (F (name # h))) s s'"
proof -
  obtain r1 s1 where a: "f (acquire name s) = (r1, s1)" by (cases "f (acquire name s)")
  have s': "s' = release s1"
    using run a by (auto simp: u_run_with_process_lock_def split: sum.splits if_splits)
  from f[OF a] obtain evs where
    h: "held s1 = name # held s" and
    e: "acquired s1 = (acquired s @ [(name, held s)]) @ evs" and
    sub: "set evs \<subseteq> F (name # held s)"
    by (auto simp: locks_within_def acquire_def)
  show ?thesis
    unfolding locks_within_def s' release_def using h e sub
    by (auto intro!: exI[of _ "(name, held s) # evs"])
qed

lemma read_from_frame:
  "u_read_from p s = (r, s') \<Longrightarrow>
     fs s' = fs s \<and> held s' = held s \<and> acquired s' = acquired s \<and> clock s' = clock s"
  by (auto simp: u_read_from_def Let_def split: sum.splits option.splits if_splits prod.splits)

lemma write_to_frame:
  "u_write_to p d s = (r, s') \<Longrightarrow>
     held s' = held s \<and> acquired s' = acquired s \<and> clock s' = clock s"
  by (auto simp: u_write_to_def split: sum.splits)

lemma locks_get_task_details_get:
  "u_get_task_details_get self uuid s = (r, s') \<Longrightarrow> locks_within no_locks s s'"
  by (auto simp: u_get_task_details_get_def split: prod.splits sum.splits
      dest!: read_from_frame intro: locks_within_same)

lemma locks_get_task_details:
  assumes "u_get_task_details self uuid lock s = (r, s')"
  shows "locks_within (if lock then task_locks else no_locks) s s'"
proof (cases lock)
  case True
  then have run: "u_run_with_process_lock Lock_task (u_get_task_details_get self uuid) s = (r, s')"
    using assms by (simp add: u_get_task_details_def)
  have "locks_within (\<lambda>h. insert (Lock_task, h) (no_locks (Lock_task # h))) s s'"
    by (rule locks_within_lock[OF run]) (rule locks_get_task_details_get)
  then have "locks_within task_locks s s'"
    by (rule locks_within_mono) (simp add: no_locks_def task_locks_def)
  then show ?thesis using True by simp
next
  case False
  then show ?thesis using assms locks_get_task_details_get
    by (simp add: u_get_task_details_def)
qed

lemma locks_load_tasks:
  "load_tasks self fd ts s = (r, s') \<Longrightarrow> locks_within task_locks s s'"
proof (induction ts arbitrary: fd s)
  case Nil
  then show ?case by (simp add: locks_within_refl)
next
  case (Cons t ts)
  obtain r1 s1 where g: "u_get_task_details self t True s = (r1, s1)"
    by (cases "u_get_task_details self t True s")
  have l1: "locks_within task_locks s s1" using locks_get_task_details[OF g] by simp
  show ?case
  proof (cases r1)
    case (Inl e)
    then show ?thesis using Cons.prems g l1 by simp
  next
    case (Inr td)
    then have "load_tasks self (fd_add fd td) ts s1 = (r, s')" using Cons.prems g by simp
    from Cons.IH[OF this] l1 show ?thesis by (rule locks_within_trans[rotated])
  qed
qed


lemma locks_lock_mono:
  assumes run: "u_run_with_process_lock name f s = (r, s')"
    and f: "\<And>r1 s1. f (acquire name s) = (r1, s1) \<Longrightarrow> locks_within F (acquire name s) s1"
    and sub: "\<And>h. insert (name, h) (F (name # h)) \<subseteq> G h"
  shows "locks_within G s s'"
  by (rule locks_within_mono[OF locks_within_lock[OF run f]]) (auto intro: sub[THEN subsetD])

lemma locks_within_weaken:
  "locks_within F s s' \<Longrightarrow> (\<And>h. F h \<subseteq> G h) \<Longrightarrow> locks_within G s s'"
  by (rule locks_within_mono)

lemma locks_get_flow_details_get:
  assumes "u_get_flow_details_get self uuid s = (r, s')"
  shows "locks_within task_locks s s'"
proof -
  obtain r1 s1 where rd: "u_read_from (u_flow_path self @ [uuid] @ [''metadata'']) s = (r1, s1)"
    by (cases "u_read_from (u_flow_path self @ [uuid] @ [''metadata'']) s")
  have l1: "locks_within task_locks s s1"
    using read_from_frame[OF rd] by (simp add: locks_within_same)
  show ?thesis
    using assms rd l1
    by (auto simp: u_get_flow_details_get_def Let_def
        split: sum.splits dest!: locks_load_tasks elim: locks_within_trans)
qed

lemma locks_get_flow_details:
  assumes "u_get_flow_details self uuid lock s = (r, s')"
  shows "locks_within (if lock then flow_locks else task_locks) s s'"
proof (cases lock)
  case True
  then have run: "u_run_with_process_lock Lock_flow (u_get_flow_details_get self uuid) s = (r, s')"
    using assms by (simp add: u_get_flow_details_def)
  have "locks_within flow_locks s s'"
    by (rule locks_lock_mono[OF run]) (erule locks_get_flow_details_get, simp add: flow_locks_def task_locks_def)
  then show ?thesis using True by simp
next
  case False
  then show ?thesis using assms locks_get_flow_details_get
    by (simp add: u_get_flow_details_def)
qed

lemma locks_load_flows:
  "load_flows self lb fs_uuids s = (r, s') \<Longrightarrow> locks_within flow_locks s s'"
proof (induction fs_uuids arbitrary: lb s)
  case Nil
  then show ?case by (simp add: locks_within_refl)
next
  case (Cons t ts)
  obtain r1 s1 where g: "u_get_flow_details self t True s = (r1, s1)"
    by (cases "u_get_flow_details self t True s")
  have l1: "locks_within flow_locks s s1" using locks_get_flow_details[OF g] by simp
  show ?case
  proof (cases r1)
    case (Inl e)
    then show ?thesis using Cons.prems g l1 by simp
  next
    case (Inr fd)
    then have "load_flows self (lb_add lb fd) ts s1 = (r, s')" using Cons.prems g by simp
    from Cons.IH[OF this] l1 show ?thesis by (rule locks_within_trans[rotated])
  qed
qed

lemma locks_get_logbook_u:
  assumes "u_get_logbook self uuid s = (r, s')"
  shows "locks_within flow_locks s s'"
proof -
  obtain r1 s1 where rd: "u_read_from (u_book_path self @ [uuid] @ [''metadata'']) s = (r1, s1)"
    by (cases "u_read_from (u_book_path self @ [uuid] @ [''metadata'']) s")
  have l1: "locks_within flow_locks s s1"
    using read_from_frame[OF rd] by (simp add: locks_within_same)
  show ?thesis
    using assms rd l1
    by (auto simp: u_get_logbook_def Let_def
        split: sum.splits if_splits dest!: locks_load_flows elim: locks_within_trans)
qed

lemma locks_get_logbook:
  assumes "get_logbook self uuid s = (r, s')"
  shows "locks_within book_locks s s'"
  by (rule locks_lock_mono[OF assms[unfolded get_logbook_def]])
     (erule locks_get_logbook_u, simp add: flow_locks_def book_locks_def)


lemma locks_read_from: "u_read_from p s = (r, s') \<Longrightarrow> locks_within F s s'"
  using read_from_frame by (simp add: locks_within_same)

lemma locks_write_to: "u_write_to p d s = (r, s') \<Longrightarrow> locks_within F s s'"
  using write_to_frame by (simp add: locks_within_same)

lemma locks_link_child: "link_child src dst s = (r, s') \<Longrightarrow> locks_within F s s'"
  by (auto simp: link_child_def locks_within_def split: sum.splits if_splits)

lemma locks_misc_ensure_tree: "misc_ensure_tree p s = (r, s') \<Longrightarrow> locks_within F s s'"
  by (auto simp: misc_ensure_tree_def locks_within_def split: sum.splits if_splits)

lemma locks_remove_tree: "remove_tree msg p s = (r, s') \<Longrightarrow> locks_within F s s'"
  by (auto simp: remove_tree_def locks_within_def split: sum.splits if_splits)

lemma locks_existing_task_details:
  "existing_task_details self uuid ig s = (r, s') \<Longrightarrow> locks_within no_locks s s'"
  using locks_get_task_details[of self uuid False s]
  by (auto simp: existing_task_details_def split: prod.splits sum.splits if_splits)

lemma locks_save_task_details:
  assumes "u_save_task_details self td ig s = (r, s')"
  shows "locks_within no_locks s s'"
proof -
  obtain r1 s1 where p: "existing_task_details self (td_uuid td) ig s = (r1, s1)"
    by (cases "existing_task_details self (td_uuid td) ig s")
  note l1 = locks_existing_task_details[OF p]
  show ?thesis
    using assms p l1
    by (auto simp: u_save_task_details_def Let_def split: sum.splits prod.splits
        dest!: locks_write_to[where F=no_locks] elim: locks_within_trans)
qed

lemma locks_save_tasks_and_link:
  "u_save_tasks_and_link self tds p s = (r, s') \<Longrightarrow> locks_within no_locks s s'"
proof (induction tds arbitrary: s)
  case Nil
  then show ?case by (simp add: locks_within_refl)
next
  case (Cons td tds)
  obtain r1 s1 where a: "u_save_task_details self td True s = (r1, s1)"
    by (cases "u_save_task_details self td True s")
  note l1 = locks_save_task_details[OF a]
  show ?case
  proof (cases r1)
    case (Inl e)
    then show ?thesis using Cons.prems a l1 by simp
  next
    case (Inr v)
    obtain r2 s2 where b: "link_child (u_task_path self @ [td_uuid td]) (p @ [td_uuid td]) s1 = (r2, s2)"
      by (cases "link_child (u_task_path self @ [td_uuid td]) (p @ [td_uuid td]) s1")
    have l2: "locks_within no_locks s s2"
      using l1 locks_link_child[OF b] by (rule locks_within_trans)
    show ?thesis
    proof (cases r2)
      case (Inl e)
      then show ?thesis using Cons.prems a b Inr l2 by simp
    next
      case (Inr w)
      then have "u_save_tasks_and_link self tds p s2 = (r, s')"
        using Cons.prems a b \<open>r1 = Inr v\<close> by simp
      from l2 Cons.IH[OF this] show ?thesis by (rule locks_within_trans)
    qed
  qed
qed

lemma locks_existing_flow_details:
  "existing_flow_details self uuid ig s = (r, s') \<Longrightarrow> locks_within task_locks s s'"
  using locks_get_flow_details[of self uuid False s]
  by (auto simp: existing_flow_details_def split: prod.splits sum.splits if_splits)

lemma locks_save_flow_details:
  assumes "u_save_flow_details self fd ig s = (r, s')"
  shows "locks_within task_locks s s'"
proof -
  obtain r1 s1 where p: "existing_flow_details self (fd_uuid fd) ig s = (r1, s1)"
    by (cases "existing_flow_details self (fd_uuid fd) ig s")
  note l1 = locks_existing_flow_details[OF p]
  have lk: "\<And>tds pth s3 r5 s5.
      u_run_with_process_lock Lock_task (u_save_tasks_and_link self tds pth) s3 = (r5, s5)
      \<Longrightarrow> locks_within task_locks s3 s5"
    by (erule locks_lock_mono) (erule locks_save_tasks_and_link, simp add: task_locks_def no_locks_def)
  show ?thesis
    using assms p l1
    by (auto simp: u_save_flow_details_def Let_def split: sum.splits prod.splits if_splits
        dest!: locks_write_to[where F=task_locks] locks_misc_ensure_tree[where F=task_locks] lk
        elim: locks_within_trans)
      (blast intro: locks_within_trans)+
qed


lemma locks_update_task_details:
  assumes "update_task_details self td s = (r, s')"
  shows "locks_within task_locks s s'"
  by (rule locks_lock_mono[OF assms[unfolded update_task_details_def]])
     (erule locks_save_task_details, simp add: task_locks_def no_locks_def)

lemma locks_update_flow_details:
  assumes "update_flow_details self fd s = (r, s')"
  shows "locks_within flow_locks s s'"
  by (rule locks_lock_mono[OF assms[unfolded update_flow_details_def]])
     (erule locks_save_flow_details, simp add: task_locks_def flow_locks_def)

lemma locks_save_flows_and_link:
  "u_save_flows_and_link self fds p s = (r, s') \<Longrightarrow> locks_within task_locks s s'"
proof (induction fds arbitrary: s)
  case Nil
  then show ?case by (simp add: locks_within_refl)
next
  case (Cons fd fds)
  obtain r1 s1 where a: "u_save_flow_details self fd True s = (r1, s1)"
    by (cases "u_save_flow_details self fd True s")
  note l1 = locks_save_flow_details[OF a]
  show ?case
  proof (cases r1)
    case (Inl e)
    then show ?thesis using Cons.prems a l1 by simp
  next
    case (Inr v)
    obtain r2 s2 where b: "link_child (u_flow_path self @ [fd_uuid fd]) (p @ [fd_uuid fd]) s1 = (r2, s2)"
      by (cases "link_child (u_flow_path self @ [fd_uuid fd]) (p @ [fd_uuid fd]) s1")
    have l2: "locks_within task_locks s s2"
      using l1 locks_link_child[OF b] by (rule locks_within_trans)
    show ?thesis
    proof (cases r2)
      case (Inl e)
      then show ?thesis using Cons.prems a b Inr l2 by simp
    next
      case (Inr w)
      then have "u_save_flows_and_link self fds p s2 = (r, s')"
        using Cons.prems a b \<open>r1 = Inr v\<close> by simp
      from l2 Cons.IH[OF this] show ?thesis by (rule locks_within_trans)
    qed
  qed
qed

lemma locks_existing_logbook:
  "existing_logbook self uuid s = (r, s') \<Longrightarrow> locks_within flow_locks s s'"
  using locks_get_logbook_u[of self uuid s]
  by (auto simp: existing_logbook_def split: prod.splits sum.splits if_splits)

lemma locks_save_logbook_u:
  assumes "u_save_logbook self book s = (r, s')"
  shows "locks_within flow_locks s s'"
proof -
  obtain r1 s1 where p: "existing_logbook self (lb_uuid book) s = (r1, s1)"
    by (cases "existing_logbook self (lb_uuid book) s")
  note l1 = locks_existing_logbook[OF p]
  have lk: "\<And>fds pth s3 r5 s5.
      u_run_with_process_lock Lock_flow (u_save_flows_and_link self fds pth) s3 = (r5, s5)
      \<Longrightarrow> locks_within flow_locks s3 s5"
    by (erule locks_lock_mono) (erule locks_save_flows_and_link, simp add: task_locks_def flow_locks_def)
  show ?thesis
    using assms p l1
    by (auto simp: u_save_logbook_def Let_def split: sum.splits prod.splits if_splits
        dest!: locks_write_to[where F=flow_locks] locks_misc_ensure_tree[where F=flow_locks] lk
        elim: locks_within_trans)
      (blast intro: locks_within_trans)+
qed

lemma locks_save_logbook:
  assumes "save_logbook self book s = (r, s')"
  shows "locks_within book_locks s s'"
  by (rule locks_lock_mono[OF assms[unfolded save_logbook_def]])
     (erule locks_save_logbook_u, simp add: flow_locks_def book_locks_def)

lemma locks_load_logbooks:
  "load_logbooks self uuids s = (r, s') \<Longrightarrow> locks_within flow_locks s s'"
proof (induction uuids arbitrary: s r s')
  case Nil
  then show ?case by (simp add: locks_within_refl)
next
  case (Cons u us)
  obtain r1 s1 where g: "u_get_logbook self u s = (r1, s1)"
    by (cases "u_get_logbook self u s")
  note l1 = locks_get_logbook_u[OF g]
  obtain r2 s2 where h: "load_logbooks self us s1 = (r2, s2)"
    by (cases "load_logbooks self us s1")
  have l2: "locks_within flow_locks s s2"
    using l1 Cons.IH[OF h] by (rule locks_within_trans)
  show ?case
    using Cons.prems g h l1 l2 by (auto split: sum.splits if_splits)
qed

lemma locks_get_logbooks:
  assumes "get_logbooks self s = (r, s')"
  shows "locks_within flow_locks s s'"
  using assms
  by (auto simp: get_logbooks_def u_get_logbooks_def split: sum.splits prod.splits if_splits
      dest!: locks_load_logbooks intro: locks_within_refl)

lemma locks_validate_paths: "validate_paths ps s = (r, s') \<Longrightarrow> s' = s"
  by (induction ps) (auto split: if_splits)

lemma locks_validate: "validate self s = (r, s') \<Longrightarrow> locks_within no_locks s s'"
  unfolding validate_def by (drule locks_validate_paths) (simp add: locks_within_refl)

lemma locks_ensure_paths: "ensure_paths msg ps s = (r, s') \<Longrightarrow> locks_within F s s'"
proof (induction ps arbitrary: s)
  case Nil
  then show ?case by (simp add: locks_within_refl)
next
  case (Cons p ps)
  obtain r1 s1 where a: "misc_ensure_tree p s = (r1, s1)" by (cases "misc_ensure_tree p s")
  note l1 = locks_misc_ensure_tree[OF a, where F=F]
  show ?case using Cons.prems a l1 Cons.IH[of s1]
    by (auto split: sum.splits if_splits intro: locks_within_trans)
qed

lemma locks_upgrade:
  assumes "upgrade self s = (r, s')"
  shows "locks_within (\<lambda>h. {(Lock_init, h)}) s s'"
proof -
  obtain r1 s1 where a: "ensure_paths ''Unable to create logbooks required path ''
             [base_path self, lock_path self] s = (r1, s1)"
    by (cases "ensure_paths ''Unable to create logbooks required path ''
             [base_path self, lock_path self] s")
  note l1 = locks_ensure_paths[OF a, where F="\<lambda>h. {(Lock_init, h)}"]
  have lk: "\<And>s3 r5 s5.
      u_run_with_process_lock Lock_init (upgrade_step_create self) s3 = (r5, s5)
      \<Longrightarrow> locks_within (\<lambda>h. {(Lock_init, h)}) s3 s5"
    by (erule locks_lock_mono[where F=no_locks])
       (unfold upgrade_step_create_def, erule locks_ensure_paths, simp add: no_locks_def)
  show ?thesis using assms a l1
    by (auto simp: upgrade_def split: sum.splits dest!: lk intro: locks_within_trans)
qed

lemma locks_clear_paths: "clear_paths ps s = (r, s') \<Longrightarrow> locks_within F s s'"
proof (induction ps arbitrary: s)
  case Nil
  then show ?case by (simp add: locks_within_refl)
next
  case (Cons p ps)
  show ?case using Cons.prems Cons.IH[of "s\<lparr>fs := _\<rparr>"] Cons.IH[of s]
    by (auto split: sum.splits if_splits simp: locks_within_def)
qed

lemma locks_clear_all:
  assumes "clear_all self s = (r, s')"
  shows "locks_within init_locks s s'"
proof -
  have t: "\<And>s r s'. clear_all_step_task self s = (r, s') \<Longrightarrow> locks_within task_locks s s'"
    unfolding clear_all_step_task_def
    by (erule locks_lock_mono[where F=no_locks])
       (unfold clear_all_step_clear_def, erule locks_clear_paths,
        simp add: no_locks_def task_locks_def)
  have f: "\<And>s r s'. clear_all_step_flow self s = (r, s') \<Longrightarrow> locks_within flow_locks s s'"
    unfolding clear_all_step_flow_def
    by (erule locks_lock_mono) (erule t, simp add: task_locks_def flow_locks_def)
  have b: "\<And>s r s'. clear_all_step_book self s = (r, s') \<Longrightarrow> locks_within book_locks s s'"
    unfolding clear_all_step_book_def
    by (erule locks_lock_mono) (erule f, simp add: book_locks_def flow_locks_def)
  show ?thesis
    by (rule locks_lock_mono[OF assms[unfolded clear_all_def]])
       (erule b, simp add: book_locks_def init_locks_def)
qed

lemma locks_destroy_tasks:
  "u_destroy_tasks self tds s = (r, s') \<Longrightarrow> locks_within no_locks s s'"
proof (induction tds arbitrary: s)
  case Nil
  then show ?case by (simp add: locks_within_refl)
next
  case (Cons td tds)
  obtain r1 s1 where a: "remove_tree ''Unable to remove task directory ''
             (u_task_path self @ [td_uuid td]) s = (r1, s1)"
    by (cases "remove_tree ''Unable to remove task directory ''
             (u_task_path self @ [td_uuid td]) s")
  note l1 = locks_remove_tree[OF a, where F=no_locks]
  show ?case using Cons.prems a l1 Cons.IH[of s1]
    by (auto split: sum.splits intro: locks_within_trans)
qed

lemma locks_destroy_flows:
  "u_destroy_flows self fds s = (r, s') \<Longrightarrow> locks_within task_locks s s'"
proof (induction fds arbitrary: s)
  case Nil
  then show ?case by (simp add: locks_within_refl)
next
  case (Cons fd fds)
  obtain r1 s1 where a: "u_run_with_process_lock Lock_task
             (u_destroy_tasks self (fd_tasks fd)) s = (r1, s1)"
    by (cases "u_run_with_process_lock Lock_task (u_destroy_tasks self (fd_tasks fd)) s")
  have l1: "locks_within task_locks s s1"
    by (rule locks_lock_mono[OF a]) (erule locks_destroy_tasks, simp add: task_locks_def no_locks_def)
  obtain r2 s2 where b: "remove_tree ''Unable to remove flow directory ''
                  (u_flow_path self @ [fd_uuid fd]) s1 = (r2, s2)"
    by (cases "remove_tree ''Unable to remove flow directory ''
                  (u_flow_path self @ [fd_uuid fd]) s1")
  have l2: "locks_within task_locks s s2"
    using l1 locks_remove_tree[OF b] by (rule locks_within_trans)
  show ?case using Cons.prems a b l1 l2 Cons.IH[of s2]
    by (auto split: sum.splits intro: locks_within_trans)
qed

lemma locks_destroy_book:
  assumes "u_destroy_book self uuid s = (r, s')"
  shows "locks_within flow_locks s s'"
proof -
  obtain r1 s1 where g: "u_get_logbook self uuid s = (r1, s1)"
    by (cases "u_get_logbook self uuid s")
  note l1 = locks_get_logbook_u[OF g]
  have lk: "\<And>fds s3 r5 s5.
      u_run_with_process_lock Lock_flow (u_destroy_flows self fds) s3 = (r5, s5)
      \<Longrightarrow> locks_within flow_locks s3 s5"
    by (erule locks_lock_mono) (erule locks_destroy_flows, simp add: task_locks_def flow_locks_def)
  show ?thesis using assms g l1
    by (auto simp: u_destroy_book_def split: sum.splits prod.splits
        dest!: lk locks_remove_tree[where F=flow_locks])
      (blast intro: locks_within_trans)+
qed

lemma locks_destroy_logbook:
  assumes "destroy_logbook self uuid s = (r, s')"
  shows "locks_within book_locks s s'"
  by (rule locks_lock_mono[OF assms[unfolded destroy_logbook_def]])
     (erule locks_destroy_book, simp add: flow_locks_def book_locks_def)

lemma lock_first:
  assumes run: "u_run_with_process_lock name f s = (r, s')"
    and f: "\<And>r1 s1. f (acquire name s) = (r1, s1) \<Longrightarrow> locks_within F (acquire name s) s1"
  shows "\<exists>evs. acquired s' = acquired s @ (name, held s) # evs \<and> set evs \<subseteq> F (name # held s)"
proof -
  obtain r1 s1 where a: "f (acquire name s) = (r1, s1)" by (cases "f (acquire name s)")
  have s': "s' = release s1"
    using run a by (auto simp: u_run_with_process_lock_def split: sum.splits if_splits)
  from f[OF a] show ?thesis
    unfolding s' by (auto simp: locks_within_def acquire_def release_def)
qed

lemma locks_operation:
  "\<exists>F \<in> {no_locks, task_locks, flow_locks, book_locks, init_locks, \<lambda>h. {(Lock_init, h)}}.
     locks_within F s (state_after self op s)"
proof (cases op)
  case (Save_logbook b) then show ?thesis
    using locks_save_logbook[of self b s] by (cases "save_logbook self b s") auto
next
  case (Get_logbook u) then show ?thesis
    using locks_get_logbook[of self u s] by (cases "get_logbook self u s") auto
next
  case Get_logbooks then show ?thesis
    using locks_get_logbooks[of self s] by (cases "get_logbooks self s") auto
next
  case (Update_flow_details fd) then show ?thesis
    using locks_update_flow_details[of self fd s] by (cases "update_flow_details self fd s") auto
next
  case (Update_task_details td) then show ?thesis
    using locks_update_task_details[of self td s] by (cases "update_task_details self td s") auto
next
  case (Destroy_logbook u) then show ?thesis
    using locks_destroy_logbook[of self u s] by (cases "destroy_logbook self u s") auto
next
  case Clear_all then show ?thesis
    using locks_clear_all[of self s] by (cases "clear_all self s") auto
next
  case Upgrade then show ?thesis
    using locks_upgrade[of self s] by (cases "upgrade self s") auto
next
  case Validate then show ?thesis
    using locks_validate[of self s] by (cases "validate self s") auto
qed

lemma lock_log_within:
  assumes "locks_within F s (state_after self op s)"
  shows "set (lock_log self op s) \<subseteq> F (held s)"
  using assms by (auto simp: locks_within_def lock_log_def)

text \<open>
  Claim C3. Every operation started with no lock held leaves no lock held, and every lock
  acquisition it makes follows the chain init, book, flow, task: all locks held at the
  moment of an acquisition stand earlier in the chain than the acquired one; in an
  operation that acquires the book lock at all, the flow lock is only acquired with the
  book lock held, and in an operation that acquires the flow lock at all, the task lock is
  only acquired with the flow lock held. \<open>save_logbook\<close> acquires the book lock first,
  with nothing held, and then only the flow lock under the book lock and the task lock
  under both.
\<close>

theorem lock_order:
  "held s = [] \<Longrightarrow>
   held (state_after self op s) = [] \<and>
   (\<forall>(l, h) \<in> set (lock_log self op s).
      list_all (\<lambda>x. lock_rank x < lock_rank l) h \<and>
      (l = Lock_flow \<and> Lock_book \<in> fst ` set (lock_log self op s) \<longrightarrow> Lock_book \<in> set h) \<and>
      (l = Lock_task \<and> Lock_flow \<in> fst ` set (lock_log self op s) \<longrightarrow> Lock_flow \<in> set h)) \<and>
   (\<forall>book. op = Save_logbook book \<longrightarrow>
      (\<exists>rest. lock_log self op s = (Lock_book, []) # rest \<and>
         set rest \<subseteq> {(Lock_flow, [Lock_book]), (Lock_task, [Lock_flow, Lock_book])}))"
proof -
  assume h: "held s = []"
  obtain F where F: "F \<in> {no_locks, task_locks, flow_locks, book_locks, init_locks, \<lambda>h. {(Lock_init, h)}}"
    and lw: "locks_within F s (state_after self op s)"
    using locks_operation[of s self op] by blast
  have sub: "set (lock_log self op s) \<subseteq> F []" using lock_log_within[OF lw] h by simp
  have held: "held (state_after self op s) = []" using lw h by (simp add: locks_within_def)
  have ord: "\<forall>(l, h) \<in> set (lock_log self op s).
      list_all (\<lambda>x. lock_rank x < lock_rank l) h \<and>
      (l = Lock_flow \<and> Lock_book \<in> fst ` set (lock_log self op s) \<longrightarrow> Lock_book \<in> set h) \<and>
      (l = Lock_task \<and> Lock_flow \<in> fst ` set (lock_log self op s) \<longrightarrow> Lock_flow \<in> set h)"
  proof (clarify)
    fix l hh assume "(l, hh) \<in> set (lock_log self op s)"
    then have mem: "(l, hh) \<in> F []" using sub by auto
    have img: "\<And>x. x \<in> fst ` set (lock_log self op s) \<Longrightarrow> x \<in> fst ` F []"
      using sub by auto
    have b: "Lock_book \<in> fst ` set (lock_log self op s) \<Longrightarrow> l = Lock_flow \<Longrightarrow> Lock_book \<in> set hh"
      using F mem img[of Lock_book]
      by (auto simp: no_locks_def task_locks_def flow_locks_def book_locks_def init_locks_def)
    have f: "Lock_flow \<in> fst ` set (lock_log self op s) \<Longrightarrow> l = Lock_task \<Longrightarrow> Lock_flow \<in> set hh"
      using F mem img[of Lock_flow]
      by (auto simp: no_locks_def task_locks_def flow_locks_def book_locks_def init_locks_def)
    have r: "list_all (\<lambda>x. lock_rank x < lock_rank l) hh"
      using F mem
      by (auto simp: no_locks_def task_locks_def flow_locks_def book_locks_def init_locks_def)
    show "list_all (\<lambda>x. lock_rank x < lock_rank l) hh \<and>
      (l = Lock_flow \<and> Lock_book \<in> fst ` set (lock_log self op s) \<longrightarrow> Lock_book \<in> set hh) \<and>
      (l = Lock_task \<and> Lock_flow \<in> fst ` set (lock_log self op s) \<longrightarrow> Lock_flow \<in> set hh)"
      using b f r by blast
  qed
  have sv: "\<exists>rest. lock_log self op s = (Lock_book, []) # rest \<and>
         set rest \<subseteq> {(Lock_flow, [Lock_book]), (Lock_task, [Lock_flow, Lock_book])}"
    if op: "op = Save_logbook book" for book
  proof -
    obtain r s' where run: "save_logbook self book s = (r, s')" by (cases "save_logbook self book s")
    have "\<exists>evs. acquired s' = acquired s @ (Lock_book, held s) # evs \<and>
        set evs \<subseteq> flow_locks (Lock_book # held s)"
      by (rule lock_first[OF run[unfolded save_logbook_def]]) (erule locks_save_logbook_u)
    then show ?thesis using op run h by (auto simp: lock_log_def flow_locks_def)
  qed
  show ?thesis using held ord sv by blast
qed

theorem lock_order_witness:
  "held example_fresh = [] \<and>
   held (state_after example_conn (Save_logbook example_book) example_fresh) = [] \<and>
   lock_log example_conn (Save_logbook example_book) example_fresh =
     [(Lock_book, []), (Lock_flow, [Lock_book]), (Lock_task, [Lock_flow, Lock_book])]"
proof -
  have h: "held example_fresh = []" by (simp add: example_fresh_def)
  have l: "lock_log example_conn (Save_logbook example_book) example_fresh =
     [(Lock_book, []), (Lock_flow, [Lock_book]), (Lock_task, [Lock_flow, Lock_book])]"
    by code_simp
  show ?thesis using lock_order[OF h, of example_conn "Save_logbook example_book"] h l by simp
qed

subsection \<open>Getting an entity whose metadata file is missing\<close>

lemma read_from_error:
  "lstat (fs s) p = Inl e \<Longrightarrow> u_read_from p s = (Inl (EnvironmentError e), s)"
  by (simp add: u_read_from_def os_path_getmtime_def)

lemma run_with_process_lock_fst:
  "f (acquire name s) = (r, s1) \<Longrightarrow>
   fst (u_run_with_process_lock name f s) =
     (case r of Inr v \<Rightarrow> Inr v
      | Inl e \<Rightarrow> if is_TaskFlowException e then Inl e
                 else Inl (StorageError ''Storage backend internal error'' e))"
  by (simp add: u_run_with_process_lock_def split: sum.splits)

lemma fs_acquire [simp]: "fs (acquire name s) = fs s"
  by (simp add: acquire_def)

text \<open>
  Claim C1, as the code has it. When the metadata file of the identifier does not exist
  (\<open>ENOENT\<close>), \<open>_get_logbook\<close> (and \<open>get_logbook\<close>) raises \<open>NotFound\<close>;
  \<open>_get_flow_details\<close> and \<open>_get_task_details\<close> raise the error of the operating
  system itself when called with \<open>lock=False\<close>, and a \<open>StorageError\<close> that carries it
  when called with \<open>lock=True\<close>.
\<close>

theorem get_missing_metadata:
  "(lstat (fs s) (u_book_path self @ [uuid, ''metadata'']) = Inl ENOENT \<longrightarrow>
      u_get_logbook self uuid s = (Inl (NotFound (''No logbook found with id: '' @ uuid)), s) \<and>
      fst (get_logbook self uuid s) = Inl (NotFound (''No logbook found with id: '' @ uuid))) \<and>
   (lstat (fs s) (u_flow_path self @ [uuid, ''metadata'']) = Inl ENOENT \<longrightarrow>
      u_get_flow_details self uuid False s = (Inl (EnvironmentError ENOENT), s) \<and>
      fst (u_get_flow_details self uuid True s) =
        Inl (StorageError ''Storage backend internal error'' (EnvironmentError ENOENT))) \<and>
   (lstat (fs s) (u_task_path self @ [uuid]) = Inl ENOENT \<longrightarrow>
      u_get_task_details self uuid False s = (Inl (EnvironmentError ENOENT), s) \<and>
      fst (u_get_task_details self uuid True s) =
        Inl (StorageError ''Storage backend internal error'' (EnvironmentError ENOENT)))"
proof -
  have book: "u_get_logbook self uuid s' = (Inl (NotFound (''No logbook found with id: '' @ uuid)), s')"
    if "lstat (fs s') (u_book_path self @ [uuid, ''metadata'']) = Inl ENOENT" for s'
    using read_from_error[OF that] by (simp add: u_get_logbook_def)
  have flow: "u_get_flow_details_get self uuid s' = (Inl (EnvironmentError ENOENT), s')"
    if "lstat (fs s') (u_flow_path self @ [uuid, ''metadata'']) = Inl ENOENT" for s'
    using read_from_error[OF that] by (simp add: u_get_flow_details_get_def)
  have task: "u_get_task_details_get self uuid s' = (Inl (EnvironmentError ENOENT), s')"
    if "lstat (fs s') (u_task_path self @ [uuid]) = Inl ENOENT" for s'
    using read_from_error[OF that] by (simp add: u_get_task_details_get_def)
  have bookl: "fst (u_run_with_process_lock Lock_book (u_get_logbook self uuid) s) =
      Inl (NotFound (''No logbook found with id: '' @ uuid))"
    if "lstat (fs s) (u_book_path self @ [uuid, ''metadata'']) = Inl ENOENT"
    using run_with_process_lock_fst[of "u_get_logbook self uuid" Lock_book s, OF book] that
    by simp
  have flowl: "fst (u_run_with_process_lock Lock_flow (u_get_flow_details_get self uuid) s) =
      Inl (StorageError ''Storage backend internal error'' (EnvironmentError ENOENT))"
    if "lstat (fs s) (u_flow_path self @ [uuid, ''metadata'']) = Inl ENOENT"
    using run_with_process_lock_fst[of "u_get_flow_details_get self uuid" Lock_flow s, OF flow] that
    by simp
  have taskl: "fst (u_run_with_process_lock Lock_task (u_get_task_details_get self uuid) s) =
      Inl (StorageError ''Storage backend internal error'' (EnvironmentError ENOENT))"
    if "lstat (fs s) (u_task_path self @ [uuid]) = Inl ENOENT"
    using run_with_process_lock_fst[of "u_get_task_details_get self uuid" Lock_task s, OF task] that
    by simp
  show ?thesis
    using book[of s] bookl flow[of s] flowl task[of s] taskl
    by (simp add: get_logbook_def u_get_flow_details_def u_get_task_details_def)
qed

theorem get_missing_metadata_witness:
  "u_get_logbook example_conn ''B1'' example_fresh =
     (Inl (NotFound ''No logbook found with id: B1''), example_fresh) \<and>
   u_get_flow_details example_conn ''F1'' False example_fresh =
     (Inl (EnvironmentError ENOENT), example_fresh) \<and>
   u_get_task_details example_conn ''T1'' False example_fresh =
     (Inl (EnvironmentError ENOENT), example_fresh)"
proof -
  have b: "lstat (fs example_fresh) (u_book_path example_conn @ [''B1'', ''metadata'']) = Inl ENOENT"
    by code_simp
  have f: "lstat (fs example_fresh) (u_flow_path example_conn @ [''F1'', ''metadata'']) = Inl ENOENT"
    by code_simp
  have t: "lstat (fs example_fresh) (u_task_path example_conn @ [''T1'']) = Inl ENOENT"
    by code_simp
  show ?thesis
    using get_missing_metadata[of example_fresh example_conn "''B1''"] b
      get_missing_metadata[of example_fresh example_conn "''F1''"] f
      get_missing_metadata[of example_fresh example_conn "''T1''"] t
    by simp
qed

text \<open>The flow and task tiers do not raise \<open>NotFound\<close> on a missing metadata file.\<close>

theorem get_missing_metadata_counterexample:
  "lstat (fs example_fresh) (u_flow_path example_conn @ [''F1'', ''metadata'']) = Inl ENOENT \<and>
   fst (u_get_flow_details example_conn ''F1'' True example_fresh) =
     Inl (StorageError ''Storage backend internal error'' (EnvironmentError ENOENT)) \<and>
   fst (u_get_flow_details example_conn ''F1'' False example_fresh) =
     Inl (EnvironmentError ENOENT) \<and>
   lstat (fs example_fresh) (u_task_path example_conn @ [''T1'']) = Inl ENOENT \<and>
   fst (u_get_task_details example_conn ''T1'' True example_fresh) =
     Inl (StorageError ''Storage backend internal error'' (EnvironmentError ENOENT)) \<and>
   fst (u_get_task_details example_conn ''T1'' False example_fresh) =
     Inl (EnvironmentError ENOENT)"
  by code_simp

subsection \<open>Linking a child\<close>

lemma walk_errors:
  "walk fsys cur rest = Inl e \<Longrightarrow> e = ENOENT \<or> e = ENOTDIR \<or> e = ELOOP"
  by (induction rest arbitrary: cur) (auto split: option.splits node.splits)

lemma lstat_errors: "lstat fsys p = Inl e \<Longrightarrow> e = ENOENT \<or> e = ENOTDIR \<or> e = ELOOP"
  unfolding lstat_def by (rule walk_errors)

lemma symlink_created:
  assumes "os_symlink fsys src dst = Inr fsys'"
  shows "fsys' = bind_node dst (Link src) fsys" and "dst \<noteq> []"
    and "lstat fsys (butlast dst) = Inr Dir" and "lstat fsys dst = Inl ENOENT"
  using assms
  by (auto simp: os_symlink_def split: sum.splits node.splits errno.splits)

lemma symlink_exists:
  "os_symlink fsys src dst = Inl EEXIST \<longleftrightarrow> (\<exists>n. lstat fsys dst = Inr n)"
  using lstat_errors[of fsys dst EEXIST]
  by (auto simp: os_symlink_def split: sum.splits node.splits errno.splits)

lemma link_child_entry:
  assumes "link_child src dst s = (Inr (), s1)"
  shows "\<exists>n. lstat (fs s1) dst = Inr n"
proof (cases "os_symlink (fs s) src dst")
  case (Inl e)
  then have "e = EEXIST" "s1 = s" using assms by (auto simp: link_child_def split: if_splits)
  then show ?thesis using Inl symlink_exists by auto
next
  case (Inr fsys)
  then have "s1 = s\<lparr>fs := fsys\<rparr>" using assms by (simp add: link_child_def)
  then show ?thesis using symlink_created[OF Inr] by (simp add: lstat_bind_node_same)
qed





subsection \<open>Destroying a log book\<close>

text \<open>
  Claim C7 at a book with one flow with one task. \<open>_save_task_details\<close> stores a task as
  a regular file, and \<open>_destroy_tasks\<close> calls \<open>shutil.rmtree\<close> on that file, which
  fails with \<open>ENOTDIR\<close>: the first \<open>destroy_logbook\<close> raises a \<open>StorageError\<close>
  and removes nothing, and so does the second.
\<close>

theorem destroy_logbook_with_task:
  "fst (save_logbook example_conn example_book example_fresh) = Inr example_book \<and>
   lstat (fs (snd (save_logbook example_conn example_book example_fresh))) [''r'', ''tasks'', ''T1'']
     = Inr (File 5 (TaskDoc ''s'' ''r'' ''m'')) \<and>
   fst (destroy_logbook example_conn ''B1''
          (snd (save_logbook example_conn example_book example_fresh))) =
     Inl (StorageError ''Unable to remove task directory /r/tasks/T1''
            (EnvironmentError ENOTDIR)) \<and>
   fs (snd (destroy_logbook example_conn ''B1''
              (snd (save_logbook example_conn example_book example_fresh)))) =
     fs (snd (save_logbook example_conn example_book example_fresh)) \<and>
   fst (destroy_logbook example_conn ''B1''
          (snd (destroy_logbook example_conn ''B1''
                  (snd (save_logbook example_conn example_book example_fresh))))) =
     Inl (StorageError ''Unable to remove task directory /r/tasks/T1''
            (EnvironmentError ENOTDIR))"
  by code_simp

subsection \<open>Reading leaves the file system alone\<close>

lemma fs_release [simp]: "fs (release s) = fs s"
  by (simp add: release_def)

lemma clock_acquire [simp]: "clock (acquire name s) = clock s"
  by (simp add: acquire_def)

lemma clock_release [simp]: "clock (release s) = clock s"
  by (simp add: release_def)

lemma lock_keeps_fs:
  assumes "u_run_with_process_lock name f s = (r, s')"
    and "\<And>r1 s1. f (acquire name s) = (r1, s1) \<Longrightarrow> fs s1 = fs (acquire name s)"
  shows "fs s' = fs s"
proof -
  obtain r1 s1 where a: "f (acquire name s) = (r1, s1)" by (cases "f (acquire name s)")
  then have "s' = release s1"
    using assms(1) by (auto simp: u_run_with_process_lock_def split: sum.splits if_splits)
  then show ?thesis using assms(2)[OF a] by simp
qed

lemma lock_error:
  assumes "u_run_with_process_lock name f s = (Inl e, s')"
  shows "is_TaskFlowException e \<and>
     (is_NotFound e \<longrightarrow> (\<exists>s1. f (acquire name s) = (Inl e, s1)))"
proof -
  obtain r1 s1 where a: "f (acquire name s) = (r1, s1)" by (cases "f (acquire name s)")
  show ?thesis
    using assms a
    by (cases r1) (auto simp: u_run_with_process_lock_def split: if_splits)
qed

lemma unformat_task_detail_error: "unformat_task_detail u d = Inl e \<Longrightarrow> \<not> is_NotFound e"
  by (cases d) auto

lemma unformat_flow_detail_error: "unformat_flow_detail u d = Inl e \<Longrightarrow> \<not> is_NotFound e"
  by (cases d) auto

lemma unformat_logbook_error: "unformat_logbook u d = Inl e \<Longrightarrow> \<not> is_NotFound e"
  by (cases d) auto

lemma read_from_error_kind: "u_read_from p s = (Inl e, s') \<Longrightarrow> is_EnvironmentError e"
  by (auto simp: u_read_from_def Let_def split: sum.splits option.splits if_splits prod.splits)

lemma get_task_details_get_fs:
  "u_get_task_details_get self u s = (r, s') \<Longrightarrow> fs s' = fs s"
  by (auto simp: u_get_task_details_get_def split: prod.splits sum.splits dest: read_from_frame)

lemma get_task_details_get_error:
  "u_get_task_details_get self u s = (Inl e, s') \<Longrightarrow> \<not> is_NotFound e"
  by (cases e)
     (auto simp: u_get_task_details_get_def split: prod.splits sum.splits
       dest: read_from_error_kind unformat_task_detail_error)

lemma get_task_details_fs:
  "u_get_task_details self u lock s = (r, s') \<Longrightarrow> fs s' = fs s"
  unfolding u_get_task_details_def
  by (auto split: if_splits dest: get_task_details_get_fs elim!: lock_keeps_fs)

lemma get_task_details_error:
  "u_get_task_details self u lock s = (Inl e, s') \<Longrightarrow> \<not> is_NotFound e"
  unfolding u_get_task_details_def
  by (auto split: if_splits dest: get_task_details_get_error dest!: lock_error)

lemma load_tasks_fs: "load_tasks self fd ts s = (r, s') \<Longrightarrow> fs s' = fs s"
proof (induction ts arbitrary: fd s)
  case Nil then show ?case by simp
next
  case (Cons t ts)
  obtain r1 s1 where g: "u_get_task_details self t True s = (r1, s1)"
    by (cases "u_get_task_details self t True s")
  show ?case using Cons.prems g get_task_details_fs[OF g] Cons.IH
    by (cases r1) auto
qed

lemma load_tasks_error: "load_tasks self fd ts s = (Inl e, s') \<Longrightarrow> \<not> is_NotFound e"
proof (induction ts arbitrary: fd s)
  case Nil then show ?case by simp
next
  case (Cons t ts)
  obtain r1 s1 where g: "u_get_task_details self t True s = (r1, s1)"
    by (cases "u_get_task_details self t True s")
  show ?case using Cons.prems g get_task_details_error[of self t True s] Cons.IH
    by (cases r1) auto
qed

lemma links_to_load_error: "links_to_load fsys p = Inl e \<Longrightarrow> is_EnvironmentError e"
  by (auto simp: links_to_load_def split: sum.splits if_splits)

lemma get_flow_details_get_fs:
  "u_get_flow_details_get self u s = (r, s') \<Longrightarrow> fs s' = fs s"
  by (auto simp: u_get_flow_details_get_def Let_def split: prod.splits sum.splits
      dest!: read_from_frame load_tasks_fs)

lemma get_flow_details_get_error:
  "u_get_flow_details_get self u s = (Inl e, s') \<Longrightarrow> \<not> is_NotFound e"
  by (cases e)
     (auto simp: u_get_flow_details_get_def Let_def split: prod.splits sum.splits
       dest: read_from_error_kind unformat_flow_detail_error links_to_load_error load_tasks_error)

lemma get_flow_details_fs:
  "u_get_flow_details self u lock s = (r, s') \<Longrightarrow> fs s' = fs s"
  unfolding u_get_flow_details_def
  by (auto split: if_splits dest: get_flow_details_get_fs elim!: lock_keeps_fs)

lemma get_flow_details_error:
  "u_get_flow_details self u lock s = (Inl e, s') \<Longrightarrow> \<not> is_NotFound e"
  unfolding u_get_flow_details_def
  by (auto split: if_splits dest: get_flow_details_get_error dest!: lock_error)

lemma load_flows_fs: "load_flows self lb us s = (r, s') \<Longrightarrow> fs s' = fs s"
proof (induction us arbitrary: lb s)
  case Nil then show ?case by simp
next
  case (Cons t ts)
  obtain r1 s1 where g: "u_get_flow_details self t True s = (r1, s1)"
    by (cases "u_get_flow_details self t True s")
  show ?case using Cons.prems g get_flow_details_fs[OF g] Cons.IH
    by (cases r1) auto
qed

lemma load_flows_error: "load_flows self lb us s = (Inl e, s') \<Longrightarrow> \<not> is_NotFound e"
proof (induction us arbitrary: lb s)
  case Nil then show ?case by simp
next
  case (Cons t ts)
  obtain r1 s1 where g: "u_get_flow_details self t True s = (r1, s1)"
    by (cases "u_get_flow_details self t True s")
  show ?case using Cons.prems g get_flow_details_error[of self t True s] Cons.IH
    by (cases r1) auto
qed

lemma load_flows_uuid: "load_flows self lb us s = (Inr lb', s') \<Longrightarrow>
    lb_uuid lb' = lb_uuid lb \<and> lb_created_at lb' = lb_created_at lb"
proof (induction us arbitrary: lb s)
  case Nil then show ?case by simp
next
  case (Cons t ts)
  obtain r1 s1 where g: "u_get_flow_details self t True s = (r1, s1)"
    by (cases "u_get_flow_details self t True s")
  show ?case using Cons.prems g Cons.IH
    by (cases r1) (auto simp: lb_add_def)
qed

lemma get_logbook_fs: "u_get_logbook self u s = (r, s') \<Longrightarrow> fs s' = fs s"
  by (auto simp: u_get_logbook_def Let_def split: prod.splits sum.splits if_splits
      dest!: read_from_frame load_flows_fs)

lemma read_from_enoent:
  "u_read_from p s = (Inl (EnvironmentError ENOENT), s') \<Longrightarrow> lstat (fs s) p = Inl ENOENT"
  by (auto simp: u_read_from_def Let_def os_path_getmtime_def open_rb_def
      split: sum.splits option.splits if_splits prod.splits node.splits)

lemma get_logbook_not_found:
  assumes "u_get_logbook self u s = (Inl e, s')" "is_NotFound e"
  shows "lstat (fs s) (u_book_path self @ [u, ''metadata'']) = Inl ENOENT"
proof -
  obtain r1 s1 where rd: "u_read_from (u_book_path self @ [u, ''metadata'']) s = (r1, s1)"
    by (cases "u_read_from (u_book_path self @ [u, ''metadata'']) s")
  show ?thesis
  proof (cases r1)
    case (Inl e1)
    show ?thesis
    proof (cases "e1 = EnvironmentError ENOENT")
      case True
      then show ?thesis using rd Inl read_from_enoent by blast
    next
      case False
      then have "e = e1" using assms(1) rd Inl by (simp add: u_get_logbook_def)
      then show ?thesis using assms(2) read_from_error_kind[of _ s e1 s1] rd Inl
        by (cases e1) auto
    qed
  next
    case (Inr d)
    then show ?thesis using assms rd
      by (auto simp: u_get_logbook_def split: sum.splits
          dest: unformat_logbook_error links_to_load_error load_flows_error)
         (cases e; auto dest: links_to_load_error)
  qed
qed

lemma get_logbook_found:
  assumes "u_get_logbook self u s = (Inr lb, s')"
  shows "lb_uuid lb = u \<and> lstat (fs s) (u_book_path self @ [u, ''metadata'']) \<noteq> Inl ENOENT"
proof -
  have "lstat (fs s) (u_book_path self @ [u, ''metadata'']) \<noteq> Inl ENOENT"
  proof
    assume "lstat (fs s) (u_book_path self @ [u, ''metadata'']) = Inl ENOENT"
    from read_from_error[OF this] show False using assms by (simp add: u_get_logbook_def)
  qed
  moreover have "lb_uuid lb = u"
    using assms
    by (auto simp: u_get_logbook_def split: prod.splits sum.splits if_splits
        dest!: load_flows_uuid elim!: unformat_logbook.elims)
  ultimately show ?thesis by simp
qed

subsection \<open>Enumerating the log books\<close>

lemma load_logbooks_result:
  "load_logbooks self ds s = (Inr books, s') \<Longrightarrow>
   map lb_uuid books =
     filter (\<lambda>d. lstat (fs s) (u_book_path self @ [d, ''metadata'']) \<noteq> Inl ENOENT) ds"
proof (induction ds arbitrary: s books s')
  case Nil
  then show ?case by simp
next
  case (Cons d ds)
  obtain r1 s1 where g: "u_get_logbook self d s = (r1, s1)" by (cases "u_get_logbook self d s")
  have f: "fs s1 = fs s" using get_logbook_fs[OF g] .
  show ?case
  proof (cases r1)
    case (Inl e)
    then have nf: "is_NotFound e" and rest: "load_logbooks self ds s1 = (Inr books, s')"
      using Cons.prems g by (auto split: if_splits)
    have "lstat (fs s) (u_book_path self @ [d, ''metadata'']) = Inl ENOENT"
      using get_logbook_not_found[OF g[unfolded Inl] nf] .
    then show ?thesis using Cons.IH[OF rest] f by simp
  next
    case (Inr lb)
    obtain r2 s2 where h: "load_logbooks self ds s1 = (r2, s2)"
      by (cases "load_logbooks self ds s1")
    then obtain lbs where r2: "r2 = Inr lbs" and b: "books = lb # lbs" and "s2 = s'"
      using Cons.prems g Inr by (cases r2) auto
    have "lb_uuid lb = d \<and> lstat (fs s) (u_book_path self @ [d, ''metadata'']) \<noteq> Inl ENOENT"
      using get_logbook_found[OF g[unfolded Inr]] .
    then show ?thesis using Cons.IH[OF h[unfolded r2]] f b by simp
  qed
qed

lemma load_logbooks_error:
  "load_logbooks self ds s = (Inl e, s') \<Longrightarrow> \<not> is_NotFound e"
proof (induction ds arbitrary: s)
  case Nil
  then show ?case by simp
next
  case (Cons d ds)
  obtain r1 s1 where g: "u_get_logbook self d s = (r1, s1)" by (cases "u_get_logbook self d s")
  obtain r2 s2 where h: "load_logbooks self ds s1 = (r2, s2)"
    by (cases "load_logbooks self ds s1")
  show ?case using Cons.prems g h Cons.IH[of s1]
    by (cases r1; cases r2) (auto split: if_splits)
qed

text \<open>
  Claim C10, as the code has it. \<open>get_logbooks\<close> never raises \<open>NotFound\<close> and never
  a bare environment error; a missing books directory yields the empty sequence; any other
  error of the listing is raised as a \<open>StorageError\<close> that carries it; the books yielded
  are those of the listed directories whose metadata file is not missing, in the order of
  the listing. The enumeration never acquires the book lock (nor the init lock); every lock
  it acquires is the flow lock, taken under the locks held at the start, or the task lock,
  taken under the flow lock: they are taken by the nested loads of a book's flows and
  tasks.
\<close>

theorem get_logbooks_outcome:
  "(get_logbooks self s = (Inl e, s') \<longrightarrow> \<not> is_NotFound e \<and> \<not> is_EnvironmentError e) \<and>
   (os_listdir (fs s) (u_book_path self) = Inl ENOENT \<longrightarrow> get_logbooks self s = (Inr [], s)) \<and>
   (os_listdir (fs s) (u_book_path self) = Inl err \<and> err \<noteq> ENOENT \<longrightarrow>
      get_logbooks self s =
        (Inl (StorageError ''Unable to fetch logbooks'' (EnvironmentError err)), s)) \<and>
   (os_listdir (fs s) (u_book_path self) = Inr ds \<and> get_logbooks self s = (Inr books, s') \<longrightarrow>
      map lb_uuid books =
        filter (\<lambda>d. os_path_isdir (fs s) (u_book_path self @ [d]) \<and>
                    lstat (fs s) (u_book_path self @ [d, ''metadata'']) \<noteq> Inl ENOENT) ds) \<and>
   (\<forall>(l, h) \<in> set (lock_log self Get_logbooks s).
      (l = Lock_flow \<and> h = held s) \<or> (l = Lock_task \<and> h = Lock_flow # held s))"
proof -
  have a: "\<not> is_NotFound e \<and> \<not> is_EnvironmentError e" if "get_logbooks self s = (Inl e, s')"
  proof -
    obtain r1 s1 where u: "u_get_logbooks self s = (r1, s1)" by (cases "u_get_logbooks self s")
    have "\<exists>e1. r1 = Inl e1" using that u by (cases r1) (simp_all add: get_logbooks_def)
    then obtain e1 where r1: "r1 = Inl e1" by blast
    have "\<not> is_NotFound e1"
      using u r1
      by (auto simp: u_get_logbooks_def split: sum.splits if_splits dest: load_logbooks_error)
    then show ?thesis using that u r1
      by (cases e1) (auto simp: get_logbooks_def split: if_splits)
  qed
  have b: "get_logbooks self s = (Inr [], s)" if "os_listdir (fs s) (u_book_path self) = Inl ENOENT"
    using that by (simp add: get_logbooks_def u_get_logbooks_def)
  have c: "get_logbooks self s =
        (Inl (StorageError ''Unable to fetch logbooks'' (EnvironmentError err)), s)"
    if "os_listdir (fs s) (u_book_path self) = Inl err" "err \<noteq> ENOENT"
    using that by (simp add: get_logbooks_def u_get_logbooks_def)
  have d: "map lb_uuid books =
        filter (\<lambda>d. os_path_isdir (fs s) (u_book_path self @ [d]) \<and>
                    lstat (fs s) (u_book_path self @ [d, ''metadata'']) \<noteq> Inl ENOENT) ds"
    if l: "os_listdir (fs s) (u_book_path self) = Inr ds"
      and g: "get_logbooks self s = (Inr books, s')"
  proof -
    have "load_logbooks self (filter (\<lambda>d. os_path_isdir (fs s) (u_book_path self @ [d])) ds) s
        = (Inr books, s')"
      using l g by (auto simp: get_logbooks_def u_get_logbooks_def split: sum.splits prod.splits if_splits)
    from load_logbooks_result[OF this] show ?thesis by (simp add: conj_commute)
  qed
  have e: "\<forall>(l, h) \<in> set (lock_log self Get_logbooks s).
      (l = Lock_flow \<and> h = held s) \<or> (l = Lock_task \<and> h = Lock_flow # held s)"
  proof -
    have "locks_within flow_locks s (state_after self Get_logbooks s)"
      using locks_get_logbooks[of self s] by (cases "get_logbooks self s") auto
    from lock_log_within[OF this] show ?thesis by (auto simp: flow_locks_def)
  qed
  show ?thesis using a b c d e by blast
qed

text \<open>Enumerating a store that holds a book with a flow with a task acquires the flow
  lock and, under it, the task lock.\<close>

theorem get_logbooks_outcome_counterexample:
  "fst (get_logbooks example_conn example_stored) = Inr [example_book\<lparr>lb_created_at := Some 5\<rparr>] \<and>
   lock_log example_conn Get_logbooks example_stored =
     [(Lock_flow, []), (Lock_task, [Lock_flow])]"
  by code_simp

theorem get_logbooks_outcome_witness:
  "os_listdir (fs example_two_books) (u_book_path example_conn) = Inr [''B0'', ''B1''] \<and>
   fst (get_logbooks example_conn example_two_books) =
     Inr [example_book\<lparr>lb_created_at := Some 5\<rparr>] \<and>
   filter (\<lambda>d. os_path_isdir (fs example_two_books) (u_book_path example_conn @ [d]) \<and>
               lstat (fs example_two_books) (u_book_path example_conn @ [d, ''metadata''])
                 \<noteq> Inl ENOENT) [''B0'', ''B1''] = [''B1''] \<and>
   get_logbooks example_conn example_empty = (Inr [], example_empty) \<and>
   get_logbooks example_conn example_books_file =
     (Inl (StorageError ''Unable to fetch logbooks'' (EnvironmentError ENOTDIR)),
      example_books_file) \<and>
   \<not> is_NotFound (StorageError ''Unable to fetch logbooks'' (EnvironmentError ENOTDIR)) \<and>
   lock_log example_conn Get_logbooks example_two_books =
     [(Lock_flow, []), (Lock_task, [Lock_flow])]"
proof -
  let ?b = "example_book\<lparr>lb_created_at := Some 5\<rparr>"
  have l: "os_listdir (fs example_two_books) (u_book_path example_conn) = Inr [''B0'', ''B1'']"
    by code_simp
  have g: "fst (get_logbooks example_conn example_two_books) = Inr [?b]" by code_simp
  then have g': "get_logbooks example_conn example_two_books =
      (Inr [?b], snd (get_logbooks example_conn example_two_books))"
    by (simp add: prod_eq_iff)
  have u: "lb_uuid ?b = ''B1''" by (simp add: example_book_def)
  have m: "os_listdir (fs example_empty) (u_book_path example_conn) = Inl ENOENT" by code_simp
  have f: "os_listdir (fs example_books_file) (u_book_path example_conn) = Inl ENOTDIR"
    by code_simp
  have k: "lock_log example_conn Get_logbooks example_two_books =
     [(Lock_flow, []), (Lock_task, [Lock_flow])]" by code_simp
  note t1 = get_logbooks_outcome[of example_conn example_two_books _
      "snd (get_logbooks example_conn example_two_books)" _ "[''B0'', ''B1'']" "[?b]"]
  note t2 = get_logbooks_outcome[of example_conn example_empty]
  note t3 = get_logbooks_outcome[of example_conn example_books_file
      "StorageError ''Unable to fetch logbooks'' (EnvironmentError ENOTDIR)" example_books_file
      ENOTDIR]
  have c1: "filter (\<lambda>d. os_path_isdir (fs example_two_books) (u_book_path example_conn @ [d]) \<and>
               lstat (fs example_two_books) (u_book_path example_conn @ [d, ''metadata''])
                 \<noteq> Inl ENOENT) [''B0'', ''B1''] = [''B1'']"
    using t1 l g' u by simp
  have c2: "get_logbooks example_conn example_empty = (Inr [], example_empty)"
    using t2 m by simp
  have c3: "get_logbooks example_conn example_books_file =
     (Inl (StorageError ''Unable to fetch logbooks'' (EnvironmentError ENOTDIR)),
      example_books_file)"
    using t3 f by simp
  have c4: "\<not> is_NotFound (StorageError ''Unable to fetch logbooks'' (EnvironmentError ENOTDIR))"
    using t3 c3 by simp
  show ?thesis using l g c1 c2 c3 c4 k by simp
qed

subsection \<open>How saving changes the file system\<close>

lemma evolves_refl: "evolves A L fsys fsys"
  by (simp add: evolves_def)

lemma evolves_mono:
  "evolves A L fsys fsys' \<Longrightarrow> A \<subseteq> A' \<Longrightarrow> L \<subseteq> L' \<Longrightarrow> evolves A' L' fsys fsys'"
  unfolding evolves_def by (meson subsetD)

lemma evolves_trans:
  assumes "evolves A L f1 f2" "evolves A L f2 f3"
  shows "evolves A L f1 f3"
  unfolding evolves_def
proof
  fix q
  from assms(1) have a: "node_at f2 q = node_at f1 q \<or>
          (q \<in> L \<and> node_at f1 q = None \<and> (\<exists>t. node_at f2 q = Some (Link t))) \<or>
          (q \<in> A \<and> (node_at f1 q = None \<or> (\<exists>m d. node_at f1 q = Some (File m d))) \<and>
           (node_at f2 q = Some Dir \<or> (\<exists>m d. node_at f2 q = Some (File m d))))"
    unfolding evolves_def by blast
  from assms(2) have b: "node_at f3 q = node_at f2 q \<or>
          (q \<in> L \<and> node_at f2 q = None \<and> (\<exists>t. node_at f3 q = Some (Link t))) \<or>
          (q \<in> A \<and> (node_at f2 q = None \<or> (\<exists>m d. node_at f2 q = Some (File m d))) \<and>
           (node_at f3 q = Some Dir \<or> (\<exists>m d. node_at f3 q = Some (File m d))))"
    unfolding evolves_def by blast
  from a b show "node_at f3 q = node_at f1 q \<or>
          (q \<in> L \<and> node_at f1 q = None \<and> (\<exists>t. node_at f3 q = Some (Link t))) \<or>
          (q \<in> A \<and> (node_at f1 q = None \<or> (\<exists>m d. node_at f1 q = Some (File m d))) \<and>
           (node_at f3 q = Some Dir \<or> (\<exists>m d. node_at f3 q = Some (File m d))))"
    by (elim disjE conjE exE) auto
qed

lemma evolves_trans_union:
  assumes "evolves A L f1 f2" "evolves A' L' f2 f3"
  shows "evolves (A \<union> A') (L \<union> L') f1 f3"
  by (rule evolves_trans[OF evolves_mono[OF assms(1)] evolves_mono[OF assms(2)]]) auto

lemma evolves_unchanged:
  "evolves A L fsys fsys' \<Longrightarrow> q \<notin> A \<Longrightarrow> q \<notin> L \<Longrightarrow> node_at fsys' q = node_at fsys q"
  unfolding evolves_def by blast

lemma evolves_keeps_dir:
  "evolves A L fsys fsys' \<Longrightarrow> node_at fsys q = Some Dir \<Longrightarrow> node_at fsys' q = Some Dir"
  unfolding evolves_def by (metis option.distinct(1) option.inject node.distinct(1))



lemma evolves_lstat_dir:
  assumes "evolves A L fsys fsys'" "lstat fsys p = Inr Dir"
  shows "lstat fsys' p = Inr Dir"
  using assms unfolding lstat_resolves by (auto intro: evolves_keeps_dir)


lemma evolves_lstat_unchanged:
  assumes "evolves A L fsys fsys'" "lstat fsys p = Inr n" "p \<notin> A" "p \<notin> L"
  shows "lstat fsys' p = Inr n"
  using assms unfolding lstat_resolves
  by (auto intro: evolves_keeps_dir simp: evolves_unchanged)




lemma evolves_bind_free:
  assumes "p \<noteq> []" "node_at fsys p = None"
  shows "evolves {p} {} fsys (bind_node p Dir fsys)"
    and "evolves {p} {} fsys (bind_node p (File m d) fsys)"
    and "evolves {} {p} fsys (bind_node p (Link t) fsys)"
  using assms by (auto simp: evolves_def node_at_bind_node)

lemma evolves_bind_file:
  assumes "p \<noteq> []" "node_at fsys p = Some (File m0 d0)"
  shows "evolves {p} {} fsys (bind_node p (File m d) fsys)"
  using assms by (auto simp: evolves_def node_at_bind_node)

lemma lstat_enoent_free:
  assumes "lstat fsys p = Inl ENOENT" "lstat fsys (butlast p) = Inr Dir" "p \<noteq> []"
  shows "node_at fsys p = None"
proof (cases "node_at fsys p")
  case None then show ?thesis .
next
  case (Some n)
  then have "lstat fsys p = Inr n" using assms lstat_parent[of p fsys n] by simp
  then show ?thesis using assms(1) by simp
qed

lemma evolves_open_wb:
  assumes "open_wb fsys now p d = Inr fsys'"
  shows "evolves {p} {} fsys fsys'"
proof -
  note r = open_wb_result[OF assms]
  have "node_at fsys p = None \<or> (\<exists>m0 d0. node_at fsys p = Some (File m0 d0))"
  proof (cases "lstat fsys p")
    case (Inl e)
    then have "e = ENOENT" using assms by (auto simp: open_wb_def split: errno.splits)
    then show ?thesis using Inl r lstat_enoent_free by blast
  next
    case (Inr n)
    then obtain m0 d0 where "n = File m0 d0"
      using assms by (cases n) (auto simp: open_wb_def)
    then show ?thesis using Inr lstat_resolves[of fsys p n] by simp
  qed
  then show ?thesis using r evolves_bind_free(2) evolves_bind_file by auto
qed

lemma evolves_symlink:
  assumes "os_symlink fsys src dst = Inr fsys'"
  shows "evolves {} {dst} fsys fsys'"
  using symlink_created[OF assms] lstat_enoent_free[of fsys dst] evolves_bind_free(3)
  by auto

lemma evolves_makedirs:
  "makedirs fsys cur cs = Inr fsys' \<Longrightarrow> evolves {q. prefix q (cur @ cs)} {} fsys fsys'"
proof (induction cs arbitrary: fsys cur)
  case Nil
  then show ?case by (simp add: evolves_refl)
next
  case (Cons c cs)
  show ?case
  proof (cases "node_at fsys (cur @ [c])")
    case None
    then have m: "makedirs (bind_node (cur @ [c]) Dir fsys) (cur @ [c]) cs = Inr fsys'"
      using Cons.prems by simp
    have a: "evolves {cur @ [c]} {} fsys (bind_node (cur @ [c]) Dir fsys)"
      using None by (intro evolves_bind_free(1)) auto
    have "evolves ({cur @ [c]} \<union> {q. prefix q ((cur @ [c]) @ cs)}) ({} \<union> {}) fsys fsys'"
      by (rule evolves_trans_union[OF a Cons.IH[OF m]])
    then show ?thesis by (rule evolves_mono) auto
  next
    case (Some n)
    then have "n = Dir" and m: "makedirs fsys (cur @ [c]) cs = Inr fsys'"
      using Cons.prems by (cases n; simp)+
    from Cons.IH[OF m] show ?thesis by simp
  qed
qed

lemma evolves_write_to:
  "u_write_to p d s = (r, s') \<Longrightarrow> evolves {p} {} (fs s) (fs s')"
  by (auto simp: u_write_to_def split: sum.splits intro: evolves_refl evolves_open_wb)

lemma evolves_misc_ensure_tree:
  "misc_ensure_tree p s = (r, s') \<Longrightarrow> evolves {q. prefix q p} {} (fs s) (fs s')"
  using evolves_makedirs[of "fs s" "[]" p]
  by (auto simp: misc_ensure_tree_def ensure_tree_def split: sum.splits intro: evolves_refl)

lemma evolves_link_child:
  "link_child src dst s = (r, s') \<Longrightarrow> evolves {} {dst} (fs s) (fs s')"
  by (auto simp: link_child_def split: sum.splits if_splits intro: evolves_refl evolves_symlink)

lemma lock_evolves:
  assumes "u_run_with_process_lock name f s = (r, s')"
    and "\<And>r1 s1. f (acquire name s) = (r1, s1) \<Longrightarrow> evolves A L (fs (acquire name s)) (fs s1)"
  shows "evolves A L (fs s) (fs s')"
proof -
  obtain r1 s1 where a: "f (acquire name s) = (r1, s1)" by (cases "f (acquire name s)")
  then have "s' = release s1"
    using assms(1) by (auto simp: u_run_with_process_lock_def split: sum.splits if_splits)
  then show ?thesis using assms(2)[OF a] by simp
qed

lemma existing_task_details_fs:
  "existing_task_details self u ig s = (r, s') \<Longrightarrow> fs s' = fs s"
  by (auto simp: existing_task_details_def split: prod.splits sum.splits if_splits
      dest: get_task_details_fs)

lemma existing_flow_details_fs:
  "existing_flow_details self u ig s = (r, s') \<Longrightarrow> fs s' = fs s"
  by (auto simp: existing_flow_details_def split: prod.splits sum.splits if_splits
      dest: get_flow_details_fs)

lemma existing_logbook_fs:
  "existing_logbook self u s = (r, s') \<Longrightarrow> fs s' = fs s"
  by (auto simp: existing_logbook_def split: prod.splits sum.splits if_splits
      dest: get_logbook_fs)

lemma evolves_save_task_details:
  assumes "u_save_task_details self td ig s = (r, s')"
  shows "evolves (task_files self) {} (fs s) (fs s')"
proof -
  obtain r1 s1 where p: "existing_task_details self (td_uuid td) ig s = (r1, s1)"
    by (cases "existing_task_details self (td_uuid td) ig s")
  have f: "fs s1 = fs s" using existing_task_details_fs[OF p] .
  show ?thesis
  proof (cases r1)
    case (Inl e)
    then show ?thesis using assms p f by (simp add: u_save_task_details_def evolves_refl)
  next
    case (Inr e_td)
    define td' where "td' = (case e_td of None \<Rightarrow> td | Some e \<Rightarrow> task_details_merge e td)"
    obtain r2 s2 where w: "u_write_to (u_task_path self @ [td_uuid td']) (format_task_detail td') s1
        = (r2, s2)"
      by (cases "u_write_to (u_task_path self @ [td_uuid td']) (format_task_detail td') s1")
    have "s' = s2" using assms p Inr w
      by (auto simp: u_save_task_details_def Let_def td'_def split: sum.splits)
    moreover have "evolves (task_files self) {} (fs s1) (fs s2)"
      by (rule evolves_mono[OF evolves_write_to[OF w]]) (auto simp: task_files_def)
    ultimately show ?thesis using f by simp
  qed
qed

lemma evolves_save_tasks_and_link:
  "u_save_tasks_and_link self tds p s = (r, s') \<Longrightarrow>
   evolves (task_files self) {q. \<exists>u. q = p @ [u]} (fs s) (fs s')"
proof (induction tds arbitrary: s)
  case Nil
  then show ?case by (simp add: evolves_refl)
next
  case (Cons td tds)
  obtain r1 s1 where a: "u_save_task_details self td True s = (r1, s1)"
    by (cases "u_save_task_details self td True s")
  have e1: "evolves (task_files self) {q. \<exists>u. q = p @ [u]} (fs s) (fs s1)"
    by (rule evolves_mono[OF evolves_save_task_details[OF a]]) auto
  show ?case
  proof (cases r1)
    case (Inl e)
    then show ?thesis using Cons.prems a e1 by simp
  next
    case (Inr v)
    obtain r2 s2 where b: "link_child (u_task_path self @ [td_uuid td]) (p @ [td_uuid td]) s1 = (r2, s2)"
      by (cases "link_child (u_task_path self @ [td_uuid td]) (p @ [td_uuid td]) s1")
    have "evolves (task_files self) {q. \<exists>u. q = p @ [u]} (fs s1) (fs s2)"
      by (rule evolves_mono[OF evolves_link_child[OF b]]) auto
    with e1 have e2: "evolves (task_files self) {q. \<exists>u. q = p @ [u]} (fs s) (fs s2)"
      by (rule evolves_trans)
    show ?thesis
    proof (cases r2)
      case (Inl e)
      then show ?thesis using Cons.prems a b Inr e2 by simp
    next
      case (Inr w)
      then have "u_save_tasks_and_link self tds p s2 = (r, s')"
        using Cons.prems a b \<open>r1 = Inr v\<close> by simp
      from e2 Cons.IH[OF this] show ?thesis by (rule evolves_trans)
    qed
  qed
qed

lemma prefix_snoc_files:
  "prefix q (p @ [c]) \<Longrightarrow> q = p @ [c] \<or> prefix q p"
  by (simp add: prefix_snoc)

lemma prefix_snoc2_files:
  "prefix q (p @ [a, b]) \<Longrightarrow> q = p @ [a, b] \<or> q = p @ [a] \<or> prefix q p"
  using prefix_snoc[of q "p @ [a]" b] prefix_snoc[of q p a] by auto

lemma evolves_flow_dir:
  "misc_ensure_tree (u_flow_path self @ [f]) sa = (ra, sb) \<Longrightarrow>
   evolves (flow_files self) (flow_slots self) (fs sa) (fs sb)"
  by (rule evolves_mono[OF evolves_misc_ensure_tree])
     (auto simp: flow_files_def dest!: prefix_snoc_files)

lemma evolves_flow_meta:
  "u_write_to (u_flow_path self @ [f, ''metadata'']) d sa = (ra, sb) \<Longrightarrow>
   evolves (flow_files self) (flow_slots self) (fs sa) (fs sb)"
  by (rule evolves_mono[OF evolves_write_to]) (auto simp: flow_files_def)

lemma evolves_flow_tasks_dir:
  "misc_ensure_tree (u_flow_path self @ [f, ''tasks'']) sa = (ra, sb) \<Longrightarrow>
   evolves (flow_files self) (flow_slots self) (fs sa) (fs sb)"
  by (rule evolves_mono[OF evolves_misc_ensure_tree])
     (auto simp: flow_files_def dest!: prefix_snoc2_files)

lemma evolves_flow_tasks_loop:
  "u_run_with_process_lock Lock_task
     (u_save_tasks_and_link self tds (u_flow_path self @ [f, ''tasks''])) sa = (ra, sb) \<Longrightarrow>
   evolves (flow_files self) (flow_slots self) (fs sa) (fs sb)"
  by (erule lock_evolves, rule evolves_mono[OF evolves_save_tasks_and_link])
     (auto simp: flow_files_def flow_slots_def)

lemma evolves_save_flow_details:
  assumes "u_save_flow_details self fd ig s = (r, s')"
  shows "evolves (flow_files self) (flow_slots self) (fs s) (fs s')"
proof -
  obtain r1 s1 where p: "existing_flow_details self (fd_uuid fd) ig s = (r1, s1)"
    by (cases "existing_flow_details self (fd_uuid fd) ig s")
  have f: "fs s1 = fs s" using existing_flow_details_fs[OF p] .
  have "evolves (flow_files self) (flow_slots self) (fs s1) (fs s')"
    using assms p
    unfolding u_save_flow_details_def Let_def
    by (auto split: sum.splits prod.splits if_splits
        dest!: evolves_flow_dir evolves_flow_meta evolves_flow_tasks_dir evolves_flow_tasks_loop
        intro: evolves_refl)
      (blast intro: evolves_trans)+
  then show ?thesis using f by simp
qed

lemma evolves_save_flows_and_link:
  "u_save_flows_and_link self fds p s = (r, s') \<Longrightarrow>
   evolves (flow_files self) (flow_slots self \<union> {q. \<exists>f. q = p @ [f]}) (fs s) (fs s')"
proof (induction fds arbitrary: s)
  case Nil
  then show ?case by (simp add: evolves_refl)
next
  case (Cons fd fds)
  let ?L = "flow_slots self \<union> {q. \<exists>f. q = p @ [f]}"
  obtain r1 s1 where a: "u_save_flow_details self fd True s = (r1, s1)"
    by (cases "u_save_flow_details self fd True s")
  have e1: "evolves (flow_files self) ?L (fs s) (fs s1)"
    by (rule evolves_mono[OF evolves_save_flow_details[OF a]]) auto
  show ?case
  proof (cases r1)
    case (Inl e)
    then show ?thesis using Cons.prems a e1 by simp
  next
    case (Inr v)
    obtain r2 s2 where b: "link_child (u_flow_path self @ [fd_uuid fd]) (p @ [fd_uuid fd]) s1 = (r2, s2)"
      by (cases "link_child (u_flow_path self @ [fd_uuid fd]) (p @ [fd_uuid fd]) s1")
    have "evolves (flow_files self) ?L (fs s1) (fs s2)"
      by (rule evolves_mono[OF evolves_link_child[OF b]]) auto
    with e1 have e2: "evolves (flow_files self) ?L (fs s) (fs s2)"
      by (rule evolves_trans)
    show ?thesis
    proof (cases r2)
      case (Inl e)
      then show ?thesis using Cons.prems a b Inr e2 by simp
    next
      case (Inr w)
      then have "u_save_flows_and_link self fds p s2 = (r, s')"
        using Cons.prems a b \<open>r1 = Inr v\<close> by simp
      from e2 Cons.IH[OF this] show ?thesis by (rule evolves_trans)
    qed
  qed
qed

lemma lock_success:
  assumes "u_run_with_process_lock name f s = (Inr v, s')"
  shows "\<exists>s1. f (acquire name s) = (Inr v, s1) \<and> s' = release s1"
proof -
  obtain r1 s1 where a: "f (acquire name s) = (r1, s1)" by (cases "f (acquire name s)")
  show ?thesis using assms a
    by (cases r1) (auto simp: u_run_with_process_lock_def split: if_splits)
qed




subsection \<open>Merging with the stored version\<close>

lemma fd_find_None: "fd_find fd u = None \<longleftrightarrow> u \<notin> td_uuid ` set (fd_tasks fd)"
  by (auto simp: fd_find_def find_None_iff)

lemma lb_find_None: "lb_find lb u = None \<longleftrightarrow> u \<notin> fd_uuid ` set (lb_flows lb)"
  by (auto simp: lb_find_def find_None_iff)

lemma fold_flow_tasks:
  "td_uuid ` set (fd_tasks (foldl (\<lambda>e_fd td. if fd_find e_fd (td_uuid td) = None
        then fd_add e_fd td else e_fd) acc tds)) =
   td_uuid ` set (fd_tasks acc) \<union> td_uuid ` set tds \<and>
   fd_uuid (foldl (\<lambda>e_fd td. if fd_find e_fd (td_uuid td) = None
        then fd_add e_fd td else e_fd) acc tds) = fd_uuid acc"
proof (induction tds arbitrary: acc)
  case Nil
  then show ?case by simp
next
  case (Cons td tds)
  show ?case
    using Cons.IH[of "if fd_find acc (td_uuid td) = None then fd_add acc td else acc"]
    by (auto simp: fd_find_None fd_add_def)
qed

lemma fold_book_flows:
  "fd_uuid ` set (lb_flows (foldl (\<lambda>e_lb fd. if lb_find e_lb (fd_uuid fd) = None
        then lb_add e_lb fd else e_lb) acc fds)) =
   fd_uuid ` set (lb_flows acc) \<union> fd_uuid ` set fds \<and>
   lb_uuid (foldl (\<lambda>e_lb fd. if lb_find e_lb (fd_uuid fd) = None
        then lb_add e_lb fd else e_lb) acc fds) = lb_uuid acc \<and>
   lb_created_at (foldl (\<lambda>e_lb fd. if lb_find e_lb (fd_uuid fd) = None
        then lb_add e_lb fd else e_lb) acc fds) = lb_created_at acc \<and>
   lb_meta (foldl (\<lambda>e_lb fd. if lb_find e_lb (fd_uuid fd) = None
        then lb_add e_lb fd else e_lb) acc fds) = lb_meta acc"
proof (induction fds arbitrary: acc)
  case Nil
  then show ?case by simp
next
  case (Cons fd fds)
  show ?case
    using Cons.IH[of "if lb_find acc (fd_uuid fd) = None then lb_add acc fd else acc"]
    by (auto simp: lb_find_None lb_add_def)
qed

lemma merge_flow_detail_tasks:
  "td_uuid ` set (fd_tasks (merge_flow_detail e_fd fd)) =
     (case e_fd of None \<Rightarrow> {} | Some e \<Rightarrow> td_uuid ` set (fd_tasks e)) \<union>
     td_uuid ` set (fd_tasks fd)"
  by (cases e_fd) (simp_all add: merge_flow_detail_def fold_flow_tasks flow_details_merge_def)

lemma merge_flow_detail_uuid:
  "fd_uuid (merge_flow_detail e_fd fd) =
     (case e_fd of None \<Rightarrow> fd_uuid fd | Some e \<Rightarrow> fd_uuid e)"
  by (cases e_fd) (simp_all add: merge_flow_detail_def fold_flow_tasks flow_details_merge_def)

lemma merge_logbook_flows:
  "fd_uuid ` set (lb_flows (merge_logbook e_lb book)) =
     (case e_lb of None \<Rightarrow> {} | Some e \<Rightarrow> fd_uuid ` set (lb_flows e)) \<union>
     fd_uuid ` set (lb_flows book)"
  by (cases e_lb) (simp_all add: merge_logbook_def fold_book_flows logbook_merge_def)

lemma merge_logbook_fields:
  "lb_uuid (merge_logbook e_lb book) =
     (case e_lb of None \<Rightarrow> lb_uuid book | Some e \<Rightarrow> lb_uuid e) \<and>
   lb_created_at (merge_logbook e_lb book) =
     (case e_lb of None \<Rightarrow> lb_created_at book | Some e \<Rightarrow> lb_created_at e) \<and>
   lb_meta (merge_logbook e_lb book) = lb_meta book"
  by (cases e_lb) (simp_all add: merge_logbook_def fold_book_flows logbook_merge_def)

lemma load_tasks_uuid:
  "load_tasks self fd ts s = (Inr fd', s') \<Longrightarrow> fd_uuid fd' = fd_uuid fd"
proof (induction ts arbitrary: fd s)
  case Nil then show ?case by simp
next
  case (Cons t ts)
  obtain r1 s1 where g: "u_get_task_details self t True s = (r1, s1)"
    by (cases "u_get_task_details self t True s")
  show ?case using Cons.prems g Cons.IH
    by (cases r1) (auto simp: fd_add_def)
qed

lemma get_flow_details_get_uuid:
  "u_get_flow_details_get self u s = (Inr fd, s') \<Longrightarrow> fd_uuid fd = u"
  by (auto simp: u_get_flow_details_get_def Let_def split: prod.splits sum.splits
      dest!: load_tasks_uuid elim!: unformat_flow_detail.elims)

lemma existing_flow_details_uuid:
  "existing_flow_details self u ig s = (Inr (Some e), s') \<Longrightarrow> fd_uuid e = u"
  by (auto simp: existing_flow_details_def u_get_flow_details_def
      split: prod.splits sum.splits if_splits dest: get_flow_details_get_uuid)

lemma existing_logbook_uuid:
  "existing_logbook self u s = (Inr (Some e), s') \<Longrightarrow> lb_uuid e = u"
  by (auto simp: existing_logbook_def split: prod.splits sum.splits if_splits
      dest: get_logbook_found)

lemma save_flow_details_success:
  assumes "u_save_flow_details self fd ig s = (Inr fd', s')"
  shows "\<exists>e_fd s1 s2 s3.
     existing_flow_details self (fd_uuid fd) ig s = (Inr e_fd, s1) \<and>
     fd' = merge_flow_detail e_fd fd \<and> fd_uuid fd' = fd_uuid fd \<and>
     misc_ensure_tree (u_flow_path self @ [fd_uuid fd]) s1 = (Inr (), s2) \<and>
     u_write_to (u_flow_path self @ [fd_uuid fd, ''metadata'']) (format_flow_detail fd') s2
       = (Inr (), s3) \<and>
     (if fd_tasks fd' = [] then s' = s3
      else \<exists>s4. misc_ensure_tree (u_flow_path self @ [fd_uuid fd, ''tasks'']) s3 = (Inr (), s4) \<and>
             u_run_with_process_lock Lock_task
               (u_save_tasks_and_link self (fd_tasks fd') (u_flow_path self @ [fd_uuid fd, ''tasks'']))
               s4 = (Inr (), s'))"
proof -
  obtain r1 s1 where p: "existing_flow_details self (fd_uuid fd) ig s = (r1, s1)"
    by (cases "existing_flow_details self (fd_uuid fd) ig s")
  then obtain e_fd where r1: "r1 = Inr e_fd"
    using assms by (cases r1) (auto simp: u_save_flow_details_def)
  have u: "fd_uuid (merge_flow_detail e_fd fd) = fd_uuid fd"
    using existing_flow_details_uuid[of self "fd_uuid fd" ig s _ s1] p r1
    by (cases e_fd) (auto simp: merge_flow_detail_uuid)
  show ?thesis
    using assms p r1 u
    unfolding u_save_flow_details_def Let_def
    by (auto split: sum.splits prod.splits if_splits)
qed

lemma save_logbook_success:
  assumes "u_save_logbook self book s = (Inr book', s')"
  shows "\<exists>e_lb s1 s2 s3.
     existing_logbook self (lb_uuid book) s = (Inr e_lb, s1) \<and>
     book' = merge_logbook e_lb book \<and> lb_uuid book' = lb_uuid book \<and>
     misc_ensure_tree (u_book_path self @ [lb_uuid book]) s1 = (Inr (), s2) \<and>
     u_write_to (u_book_path self @ [lb_uuid book, ''metadata''])
       (format_logbook book' (case e_lb of None \<Rightarrow> None | Some _ \<Rightarrow> lb_created_at book')
          (clock s2)) s2 = (Inr (), s3) \<and>
     (if lb_flows book' = [] then s' = s3
      else \<exists>s4. misc_ensure_tree (u_book_path self @ [lb_uuid book, ''flows'']) s3 = (Inr (), s4) \<and>
             u_run_with_process_lock Lock_flow
               (u_save_flows_and_link self (lb_flows book') (u_book_path self @ [lb_uuid book, ''flows'']))
               s4 = (Inr (), s'))"
proof -
  obtain r1 s1 where p: "existing_logbook self (lb_uuid book) s = (r1, s1)"
    by (cases "existing_logbook self (lb_uuid book) s")
  then obtain e_lb where r1: "r1 = Inr e_lb"
    using assms by (cases r1) (auto simp: u_save_logbook_def)
  have u: "lb_uuid (merge_logbook e_lb book) = lb_uuid book"
    using existing_logbook_uuid[of self "lb_uuid book" s _ s1] p r1
    by (cases e_lb) (auto simp: merge_logbook_fields)
  show ?thesis
    using assms p r1 u
    unfolding u_save_logbook_def Let_def
    by (auto split: sum.splits prod.splits if_splits)
qed

subsection \<open>Saving unions the children\<close>






subsection \<open>The creation time of a book\<close>

lemma read_from_coherent:
  assumes "lstat (fs s) p = Inr (File mt d)" "cache_coherent s p"
  shows "\<exists>s0. u_read_from p s = (Inr d, s0)"
proof (cases "cache_miss s p mt")
  case True
  then show ?thesis using read_from_miss[OF assms(1)] by blast
next
  case False
  then obtain m' d' where c: "file_cache s p = Some (Some (m', d'))" "\<not> mt > m'"
    by (auto simp: cache_miss_def split: option.splits)
  then have "d' = d" using assms by (auto simp: cache_coherent_def)
  then show ?thesis using read_from_hit[OF assms(1) c] by blast
qed

lemma get_logbook_created_at:
  assumes "lstat (fs s) (u_book_path self @ [uuid, ''metadata'']) = Inr (File mt (BookDoc m c u))"
    "cache_coherent s (u_book_path self @ [uuid, ''metadata''])"
    "existing_logbook self uuid s = (Inr e_lb, s1)"
  shows "\<exists>e. e_lb = Some e \<and> lb_created_at e = Some c"
proof -
  obtain s0 where rd: "u_read_from (u_book_path self @ [uuid, ''metadata'']) s
      = (Inr (BookDoc m c u), s0)"
    using read_from_coherent[OF assms(1,2)] by blast
  show ?thesis
    using assms(3) rd
    by (auto simp: existing_logbook_def u_get_logbook_def Let_def
        split: sum.splits prod.splits if_splits
        dest: links_to_load_error load_flows_error load_flows_uuid)
       (metis is_EnvironmentError.elims(2) is_NotFound.simps(3) links_to_load_error)
qed

lemma book_meta_not_flow_file:
  "u_book_path self @ [b, ''metadata''] \<notin> flow_files self"
  "u_book_path self @ [b, ''metadata''] \<notin> flow_slots self"
  "u_book_path self @ [b, ''metadata''] \<notin> {q. \<exists>f. q = u_book_path self @ [b, ''flows''] @ [f]}"
  "u_book_path self @ [b, ''metadata''] \<notin> {q. prefix q (u_book_path self @ [b, ''flows''])}"
  by (auto simp: flow_files_def flow_slots_def task_files_def u_book_path_def u_flow_path_def
      u_task_path_def)

lemma save_logbook_created_at:
  assumes disk: "lstat (fs s) (u_book_path self @ [lb_uuid book, ''metadata''])
      = Inr (File mt (BookDoc m c u))"
    and coh: "cache_coherent s (u_book_path self @ [lb_uuid book, ''metadata''])"
    and sv: "u_save_logbook self book s = (Inr book', s')"
  shows "\<exists>mt' u'. lstat (fs s') (u_book_path self @ [lb_uuid book, ''metadata''])
      = Inr (File mt' (BookDoc (lb_meta book) c u'))"
proof -
  let ?meta = "u_book_path self @ [lb_uuid book, ''metadata'']"
  let ?dir = "u_book_path self @ [lb_uuid book, ''flows'']"
  from save_logbook_success[OF sv] obtain e_lb s1 s2 s3 where
    p: "existing_logbook self (lb_uuid book) s = (Inr e_lb, s1)" and
    m: "book' = merge_logbook e_lb book" and
    w: "u_write_to ?meta
       (format_logbook book' (case e_lb of None \<Rightarrow> None | Some _ \<Rightarrow> lb_created_at book')
          (clock s2)) s2 = (Inr (), s3)" and
    rest: "if lb_flows book' = [] then s' = s3
      else \<exists>s4. misc_ensure_tree ?dir s3 = (Inr (), s4) \<and>
           u_run_with_process_lock Lock_flow
             (u_save_flows_and_link self (lb_flows book') ?dir) s4 = (Inr (), s')"
    by blast
  obtain e where e: "e_lb = Some e" "lb_created_at e = Some c"
    using get_logbook_created_at[OF disk coh p] by blast
  have doc: "format_logbook book' (case e_lb of None \<Rightarrow> None | Some _ \<Rightarrow> lb_created_at book')
          (clock s2) = BookDoc (lb_meta book) c (Some (clock s2))"
    using e m merge_logbook_fields[of e_lb book] by (simp add: format_logbook_def)
  have l3: "lstat (fs s3) ?meta = Inr (File (clock s2) (BookDoc (lb_meta book) c (Some (clock s2))))"
    using write_to_result[OF w] doc by (simp add: lstat_bind_node_same)
  show ?thesis
  proof (cases "lb_flows book' = []")
    case True
    then show ?thesis using rest l3 by auto
  next
    case False
    then obtain s4 where
      t: "misc_ensure_tree ?dir s3 = (Inr (), s4)" and
      l: "u_run_with_process_lock Lock_flow (u_save_flows_and_link self (lb_flows book') ?dir) s4
            = (Inr (), s')"
      using rest by auto
    from lock_success[OF l] obtain s5 where
      loop: "u_save_flows_and_link self (lb_flows book') ?dir (acquire Lock_flow s4) = (Inr (), s5)"
      and s': "s' = release s5" by blast
    have l4: "lstat (fs s4) ?meta = Inr (File (clock s2) (BookDoc (lb_meta book) c (Some (clock s2))))"
      by (rule evolves_lstat_unchanged[OF evolves_misc_ensure_tree[OF t] l3])
         (use book_meta_not_flow_file(4)[of self "lb_uuid book"] in simp_all)
    have "lstat (fs s5) ?meta = Inr (File (clock s2) (BookDoc (lb_meta book) c (Some (clock s2))))"
      by (rule evolves_lstat_unchanged[OF evolves_save_flows_and_link[OF loop]])
         (use l4 book_meta_not_flow_file(1,2,3)[of self "lb_uuid book"] in simp_all)
    then show ?thesis using s' by auto
  qed
qed

text \<open>
  Claim C4. When the metadata file of a book is on disk with creation time \<open>c\<close> (and the
  cache holds no stale content for it), every \<open>save_logbook\<close> of that identifier that
  returns leaves a metadata file with creation time \<open>c\<close>, whatever creation time and
  metadata the incoming book carries.
\<close>

theorem created_at_retained:
  "lstat (fs s) (u_book_path self @ [lb_uuid book, ''metadata''])
      = Inr (File mt (BookDoc m c u)) \<and>
   cache_coherent s (u_book_path self @ [lb_uuid book, ''metadata'']) \<and>
   (save_logbook self book s = (Inr book', s') \<or> u_save_logbook self book s = (Inr book', s'))
   \<longrightarrow>
   (\<exists>mt' u'. lstat (fs s') (u_book_path self @ [lb_uuid book, ''metadata''])
      = Inr (File mt' (BookDoc (lb_meta book) c u')))"
proof (intro impI, elim conjE disjE)
  assume disk: "lstat (fs s) (u_book_path self @ [lb_uuid book, ''metadata''])
      = Inr (File mt (BookDoc m c u))"
    and coh: "cache_coherent s (u_book_path self @ [lb_uuid book, ''metadata''])"
  {
    assume "u_save_logbook self book s = (Inr book', s')"
    from save_logbook_created_at[OF disk coh this]
    show "\<exists>mt' u'. lstat (fs s') (u_book_path self @ [lb_uuid book, ''metadata''])
      = Inr (File mt' (BookDoc (lb_meta book) c u'))" .
  }
  {
    assume "save_logbook self book s = (Inr book', s')"
    from lock_success[OF this[unfolded save_logbook_def]] obtain s1 where
      u: "u_save_logbook self book (acquire Lock_book s) = (Inr book', s1)"
      and s': "s' = release s1" by blast
    have coh': "cache_coherent (acquire Lock_book s) (u_book_path self @ [lb_uuid book, ''metadata''])"
    proof -
      have "file_cache (acquire Lock_book s) = file_cache s" by (simp add: acquire_def)
      then show ?thesis
        using coh unfolding cache_coherent_def fs_acquire by simp
    qed
    from save_logbook_created_at[OF _ coh' u] disk s'
    show "\<exists>mt' u'. lstat (fs s') (u_book_path self @ [lb_uuid book, ''metadata''])
      = Inr (File mt' (BookDoc (lb_meta book) c u'))" by simp
  }
qed

theorem created_at_retained_witness:
  "lstat (fs example_stored) [''r'', ''books'', ''B1'', ''metadata'']
     = Inr (File 5 (BookDoc ''bm'' 5 None)) \<and>
   lb_created_at example_book_later = Some 99 \<and>
   \<not> isl (fst (save_logbook example_conn example_book_later (example_stored\<lparr>clock := 7\<rparr>))) \<and>
   lstat (fs (snd (save_logbook example_conn example_book_later (example_stored\<lparr>clock := 7\<rparr>))))
     [''r'', ''books'', ''B1'', ''metadata'']
     = Inr (File 7 (BookDoc ''bm2'' 5 (Some 7)))"
proof -
  let ?s = "example_stored\<lparr>clock := 7\<rparr>"
  let ?sv = "save_logbook example_conn example_book_later ?s"
  let ?meta = "[''r'', ''books'', ''B1'', ''metadata'']"
  have p: "u_book_path example_conn @ [lb_uuid example_book_later, ''metadata''] = ?meta"
    by (simp add: u_book_path_def example_conn_def example_book_later_def example_book_def)
  have disk0: "lstat (fs example_stored) ?meta = Inr (File 5 (BookDoc ''bm'' 5 None))"
    by code_simp
  then have disk: "lstat (fs ?s) ?meta = Inr (File 5 (BookDoc ''bm'' 5 None))" by simp
  have coh: "cache_coherent ?s ?meta" by code_simp
  have ok: "\<not> isl (fst ?sv)" by code_simp
  then have run: "?sv = (Inr (projr (fst ?sv)), snd ?sv)" by (simp add: prod_eq_iff)
  have after: "lstat (fs (snd ?sv)) ?meta = Inr (File 7 (BookDoc ''bm2'' 5 (Some 7)))"
    by code_simp
  have c: "lb_created_at example_book_later = Some 99" by (simp add: example_book_later_def)
  have "\<exists>mt' u'. lstat (fs (snd ?sv)) ?meta = Inr (File mt' (BookDoc (lb_meta example_book_later) 5 u'))"
    using created_at_retained[of ?s example_conn example_book_later 5 "''bm''" 5 None
        "projr (fst ?sv)" "snd ?sv"] disk coh run p
    by simp
  then show ?thesis using disk0 c ok after by simp
qed

subsection \<open>Saving a container without children\<close>

lemma load_tasks_count:
  "load_tasks self fd ts s = (Inr fd', s') \<Longrightarrow>
   length (fd_tasks fd') = length (fd_tasks fd) + length ts"
proof (induction ts arbitrary: fd s)
  case Nil then show ?case by simp
next
  case (Cons t ts)
  obtain r1 s1 where g: "u_get_task_details self t True s = (r1, s1)"
    by (cases "u_get_task_details self t True s")
  show ?case using Cons.prems g Cons.IH
    by (cases r1) (auto simp: fd_add_def)
qed

lemma load_flows_count:
  "load_flows self lb us s = (Inr lb', s') \<Longrightarrow>
   length (lb_flows lb') = length (lb_flows lb) + length us"
proof (induction us arbitrary: lb s)
  case Nil then show ?case by simp
next
  case (Cons t ts)
  obtain r1 s1 where g: "u_get_flow_details self t True s = (r1, s1)"
    by (cases "u_get_flow_details self t True s")
  show ?case using Cons.prems g Cons.IH
    by (cases r1) (auto simp: lb_add_def)
qed

lemma load_tasks_error_kind:
  "load_tasks self fd ts s = (Inl e, s') \<Longrightarrow> is_TaskFlowException e"
proof (induction ts arbitrary: fd s)
  case Nil then show ?case by simp
next
  case (Cons t ts)
  obtain r1 s1 where g: "u_get_task_details self t True s = (r1, s1)"
    by (cases "u_get_task_details self t True s")
  show ?case using Cons.prems g Cons.IH lock_error[of Lock_task "u_get_task_details_get self t" s]
    by (cases r1) (auto simp: u_get_task_details_def)
qed

lemma not_both_kinds: "is_TaskFlowException e \<Longrightarrow> \<not> is_EnvironmentError e"
  by (cases e) auto

lemma unformat_flow_detail_kind: "unformat_flow_detail u d = Inl e \<Longrightarrow> \<not> is_EnvironmentError e"
  by (cases d) auto

lemma unformat_flow_detail_tasks: "unformat_flow_detail u d = Inr fd \<Longrightarrow> fd_tasks fd = []"
  by (cases d) auto

lemma unformat_logbook_flows: "unformat_logbook u d = Inr lb \<Longrightarrow> lb_flows lb = []"
  by (cases d) auto

lemma flow_probe_quiet:
  assumes p: "existing_flow_details self u ig s = (Inr e_fd, s1)"
    and e: "case e_fd of None \<Rightarrow> True | Some e \<Rightarrow> fd_tasks e = []"
  shows "acquired s1 = acquired s \<and> held s1 = held s"
proof -
  let ?meta = "(u_flow_path self @ [u]) @ [''metadata'']"
  obtain r0 s0 where rd: "u_read_from ?meta s = (r0, s0)" by (cases "u_read_from ?meta s")
  have q0: "acquired s0 = acquired s \<and> held s0 = held s" using read_from_frame[OF rd] by simp
  show ?thesis
  proof (cases r0)
    case (Inl err)
    then have "u_get_flow_details self u False s = (Inl err, s0)"
      using rd by (simp add: u_get_flow_details_def u_get_flow_details_get_def)
    then have "s1 = s0" using p by (auto simp: existing_flow_details_def split: if_splits)
    then show ?thesis using q0 by simp
  next
    case (Inr meta)
    show ?thesis
    proof (cases "unformat_flow_detail u meta")
      case (Inl err)
      then have "u_get_flow_details self u False s = (Inl err, s0)"
        using rd Inr by (simp add: u_get_flow_details_def u_get_flow_details_get_def)
      then show ?thesis using p unformat_flow_detail_kind[OF Inl]
        by (auto simp: existing_flow_details_def split: if_splits)
    next
      case fd0: (Inr fd)
      show ?thesis
      proof (cases "links_to_load (fs s0) ((u_flow_path self @ [u]) @ [''tasks''])")
        case (Inl err)
        then have "u_get_flow_details self u False s = (Inl err, s0)"
          using rd Inr fd0 by (simp add: u_get_flow_details_def u_get_flow_details_get_def)
        then have "s1 = s0" using p by (auto simp: existing_flow_details_def split: if_splits)
        then show ?thesis using q0 by simp
      next
        case ts: (Inr td_to_load)
        obtain r2 s2 where l: "load_tasks self fd td_to_load s0 = (r2, s2)"
          by (cases "load_tasks self fd td_to_load s0")
        have g: "u_get_flow_details self u False s = (r2, s2)"
          using rd Inr fd0 ts l by (simp add: u_get_flow_details_def u_get_flow_details_get_def)
        show ?thesis
        proof (cases r2)
          case (Inl err)
          then show ?thesis
            using p g not_both_kinds[OF load_tasks_error_kind[OF l[unfolded Inl]]]
            by (auto simp: existing_flow_details_def split: if_splits)
        next
          case loaded: (Inr fd1)
          then have "e_fd = Some fd1" using p g by (simp add: existing_flow_details_def)
          then have "fd_tasks fd1 = []" using e by simp
          then have "td_to_load = []"
            using load_tasks_count[OF l[unfolded loaded]] by simp
          then have "s2 = s0" using l by simp
          moreover have "s1 = s2" using p g loaded by (simp add: existing_flow_details_def)
          ultimately show ?thesis using q0 by simp
        qed
      qed
    qed
  qed
qed

lemma load_flows_error_kind:
  "load_flows self lb us s = (Inl e, s') \<Longrightarrow> is_TaskFlowException e"
proof (induction us arbitrary: lb s)
  case Nil then show ?case by simp
next
  case (Cons t ts)
  obtain r1 s1 where g: "u_get_flow_details self t True s = (r1, s1)"
    by (cases "u_get_flow_details self t True s")
  show ?case using Cons.prems g Cons.IH lock_error[of Lock_flow "u_get_flow_details_get self t" s]
    by (cases r1) (auto simp: u_get_flow_details_def)
qed

lemma book_probe_quiet:
  assumes p: "existing_logbook self u s = (Inr e_lb, s1)"
    and e: "case e_lb of None \<Rightarrow> True | Some e \<Rightarrow> lb_flows e = []"
  shows "acquired s1 = acquired s \<and> held s1 = held s"
proof -
  obtain r s2 where g: "u_get_logbook self u s = (r, s2)" by (cases "u_get_logbook self u s")
  show ?thesis
  proof (cases r)
    case (Inl err)
    then have nf: "is_NotFound err" and "s1 = s2"
      using p g by (auto simp: existing_logbook_def split: if_splits)
    have "lstat (fs s) (u_book_path self @ [u, ''metadata'']) = Inl ENOENT"
      using get_logbook_not_found[OF g[unfolded Inl] nf] .
    from read_from_error[OF this] have "s2 = s" using g by (simp add: u_get_logbook_def)
    then show ?thesis using \<open>s1 = s2\<close> by simp
  next
    case (Inr lb)
    then have e_lb: "e_lb = Some lb" and s1: "s1 = s2"
      using p g by (auto simp: existing_logbook_def)
    then have empty: "lb_flows lb = []" using e by simp
    let ?meta = "(u_book_path self @ [u]) @ [''metadata'']"
    obtain r0 s0 where rd: "u_read_from ?meta s = (r0, s0)" by (cases "u_read_from ?meta s")
    have q0: "acquired s0 = acquired s \<and> held s0 = held s" using read_from_frame[OF rd] by simp
    obtain meta lb0 fd_uuids where
      r0: "r0 = Inr meta" and un: "unformat_logbook u meta = Inr lb0" and
      ls: "links_to_load (fs s0) ((u_book_path self @ [u]) @ [''flows'']) = Inr fd_uuids" and
      lf: "load_flows self lb0 fd_uuids s0 = (Inr lb, s2)"
      using g rd Inr
      by (auto simp: u_get_logbook_def Let_def split: sum.splits if_splits)
    have "fd_uuids = []" using load_flows_count[OF lf] empty by simp
    then have "s2 = s0" using lf by simp
    then show ?thesis using q0 s1 by simp
  qed
qed

lemma misc_ensure_tree_frame:
  "misc_ensure_tree p s = (r, s') \<Longrightarrow> acquired s' = acquired s \<and> held s' = held s"
  by (auto simp: misc_ensure_tree_def split: sum.splits)

lemma evolves_changes:
  "evolves A {} fsys fsys' \<Longrightarrow> node_at fsys' q \<noteq> node_at fsys q \<Longrightarrow> q \<in> A"
  unfolding evolves_def by blast

lemma save_tasks_and_link_dir:
  assumes "u_save_tasks_and_link self tds p s = (Inr (), s')" "tds \<noteq> []"
  shows "lstat (fs s') p = Inr Dir"
proof -
  obtain x xs where tds: "tds = x # xs" using assms(2) by (cases tds) auto
  obtain r1 s1 where a: "u_save_task_details self x True s = (r1, s1)"
    by (cases "u_save_task_details self x True s")
  then obtain v where r1: "r1 = Inr v" using assms(1) tds by (cases r1) auto
  obtain r2 s2 where b: "link_child (u_task_path self @ [td_uuid x]) (p @ [td_uuid x]) s1 = (r2, s2)"
    by (cases "link_child (u_task_path self @ [td_uuid x]) (p @ [td_uuid x]) s1")
  then have r2: "r2 = Inr ()" using assms(1) tds a r1 by (cases r2) auto
  have rest: "u_save_tasks_and_link self xs p s2 = (Inr (), s')"
    using assms(1) tds a b r1 r2 by simp
  obtain n where "lstat (fs s2) (p @ [td_uuid x]) = Inr n"
    using link_child_entry[OF b[unfolded r2]] by blast
  then have "lstat (fs s2) p = Inr Dir" using lstat_parent[of "p @ [td_uuid x]" "fs s2" n] by simp
  then show ?thesis by (rule evolves_lstat_dir[OF evolves_save_tasks_and_link[OF rest]])
qed

lemma save_flows_and_link_dir:
  assumes "u_save_flows_and_link self fds p s = (Inr (), s')" "fds \<noteq> []"
  shows "lstat (fs s') p = Inr Dir"
proof -
  obtain x xs where fds: "fds = x # xs" using assms(2) by (cases fds) auto
  obtain r1 s1 where a: "u_save_flow_details self x True s = (r1, s1)"
    by (cases "u_save_flow_details self x True s")
  then obtain v where r1: "r1 = Inr v" using assms(1) fds by (cases r1) auto
  obtain r2 s2 where b: "link_child (u_flow_path self @ [fd_uuid x]) (p @ [fd_uuid x]) s1 = (r2, s2)"
    by (cases "link_child (u_flow_path self @ [fd_uuid x]) (p @ [fd_uuid x]) s1")
  then have r2: "r2 = Inr ()" using assms(1) fds a r1 by (cases r2) auto
  have rest: "u_save_flows_and_link self xs p s2 = (Inr (), s')"
    using assms(1) fds a b r1 r2 by simp
  obtain n where "lstat (fs s2) (p @ [fd_uuid x]) = Inr n"
    using link_child_entry[OF b[unfolded r2]] by blast
  then have "lstat (fs s2) p = Inr Dir" using lstat_parent[of "p @ [fd_uuid x]" "fs s2" n] by simp
  then show ?thesis by (rule evolves_lstat_dir[OF evolves_save_flows_and_link[OF rest]])
qed

lemma save_flow_details_empty:
  assumes sv: "u_save_flow_details self fd ig s = (Inr fd', s')" and empty: "fd_tasks fd' = []"
  shows "acquired s' = acquired s"
    and "node_at (fs s') (u_flow_path self @ [fd_uuid fd, ''tasks''])
           = node_at (fs s) (u_flow_path self @ [fd_uuid fd, ''tasks''])"
    and "\<forall>q. node_at (fs s') q \<noteq> node_at (fs s) q \<longrightarrow>
           prefix q (u_flow_path self @ [fd_uuid fd]) \<or>
           q = u_flow_path self @ [fd_uuid fd, ''metadata'']"
    and "\<exists>mt. lstat (fs s') (u_flow_path self @ [fd_uuid fd, ''metadata''])
           = Inr (File mt (format_flow_detail fd'))"
proof -
  from save_flow_details_success[OF sv] empty obtain e_fd s1 s2 where
    p: "existing_flow_details self (fd_uuid fd) ig s = (Inr e_fd, s1)" and
    m: "fd' = merge_flow_detail e_fd fd" and
    d: "misc_ensure_tree (u_flow_path self @ [fd_uuid fd]) s1 = (Inr (), s2)" and
    w: "u_write_to (u_flow_path self @ [fd_uuid fd, ''metadata'']) (format_flow_detail fd') s2
          = (Inr (), s')"
    by auto
  have "case e_fd of None \<Rightarrow> True | Some e \<Rightarrow> fd_tasks e = []"
    using empty merge_flow_detail_tasks[of e_fd fd] m by (cases e_fd) auto
  from flow_probe_quiet[OF p this] misc_ensure_tree_frame[OF d] write_to_frame[OF w]
  show "acquired s' = acquired s" by simp
  have ev: "evolves ({q. prefix q (u_flow_path self @ [fd_uuid fd])} \<union>
                      {u_flow_path self @ [fd_uuid fd, ''metadata'']}) ({} \<union> {}) (fs s) (fs s')"
    using evolves_trans_union[OF evolves_misc_ensure_tree[OF d] evolves_write_to[OF w]]
      existing_flow_details_fs[OF p] by simp
  then show ch: "\<forall>q. node_at (fs s') q \<noteq> node_at (fs s) q \<longrightarrow>
           prefix q (u_flow_path self @ [fd_uuid fd]) \<or>
           q = u_flow_path self @ [fd_uuid fd, ''metadata'']"
    using evolves_changes by fastforce
  show "node_at (fs s') (u_flow_path self @ [fd_uuid fd, ''tasks''])
           = node_at (fs s) (u_flow_path self @ [fd_uuid fd, ''tasks''])"
    using ch by force
  show "\<exists>mt. lstat (fs s') (u_flow_path self @ [fd_uuid fd, ''metadata''])
           = Inr (File mt (format_flow_detail fd'))"
    using write_to_result[OF w] by (simp add: lstat_bind_node_same)
qed

lemma save_flow_details_children_present:
  assumes sv: "u_save_flow_details self fd ig s = (Inr fd', s')" and ne: "fd_tasks fd' \<noteq> []"
  shows "lstat (fs s') (u_flow_path self @ [fd_uuid fd, ''tasks'']) = Inr Dir"
    and "(Lock_task, held s) \<in> set (drop (length (acquired s)) (acquired s'))"
proof -
  let ?dir = "u_flow_path self @ [fd_uuid fd, ''tasks'']"
  from save_flow_details_success[OF sv] ne obtain e_fd s1 s2 s3 s4 where
    p: "existing_flow_details self (fd_uuid fd) ig s = (Inr e_fd, s1)" and
    d: "misc_ensure_tree (u_flow_path self @ [fd_uuid fd]) s1 = (Inr (), s2)" and
    w: "u_write_to (u_flow_path self @ [fd_uuid fd, ''metadata'']) (format_flow_detail fd') s2
          = (Inr (), s3)" and
    t: "misc_ensure_tree ?dir s3 = (Inr (), s4)" and
    l: "u_run_with_process_lock Lock_task (u_save_tasks_and_link self (fd_tasks fd') ?dir) s4
          = (Inr (), s')"
    by auto
  from lock_success[OF l] obtain s5 where
    loop: "u_save_tasks_and_link self (fd_tasks fd') ?dir (acquire Lock_task s4) = (Inr (), s5)"
    and s': "s' = release s5" by blast
  show "lstat (fs s') ?dir = Inr Dir"
    using save_tasks_and_link_dir[OF loop ne] s' by simp
  obtain evs1 where q1: "held s1 = held s" "acquired s1 = acquired s @ evs1"
    using locks_existing_flow_details[OF p] by (auto simp: locks_within_def)
  have q4: "held s4 = held s" "acquired s4 = acquired s @ evs1"
    using q1 misc_ensure_tree_frame[OF d] write_to_frame[OF w] misc_ensure_tree_frame[OF t]
    by simp_all
  obtain evs where "acquired s' = acquired s4 @ (Lock_task, held s4) # evs"
    using lock_first[OF l, of no_locks] locks_save_tasks_and_link by blast
  then show "(Lock_task, held s) \<in> set (drop (length (acquired s)) (acquired s'))"
    using q4 by simp
qed

lemma save_logbook_empty:
  assumes sv: "u_save_logbook self book s = (Inr book', s')" and empty: "lb_flows book' = []"
  shows "acquired s' = acquired s"
    and "node_at (fs s') (u_book_path self @ [lb_uuid book, ''flows''])
           = node_at (fs s) (u_book_path self @ [lb_uuid book, ''flows''])"
    and "\<forall>q. node_at (fs s') q \<noteq> node_at (fs s) q \<longrightarrow>
           prefix q (u_book_path self @ [lb_uuid book]) \<or>
           q = u_book_path self @ [lb_uuid book, ''metadata'']"
    and "\<exists>mt d. lstat (fs s') (u_book_path self @ [lb_uuid book, ''metadata''])
           = Inr (File mt d)"
proof -
  from save_logbook_success[OF sv] empty obtain e_lb s1 s2 where
    p: "existing_logbook self (lb_uuid book) s = (Inr e_lb, s1)" and
    m: "book' = merge_logbook e_lb book" and
    d: "misc_ensure_tree (u_book_path self @ [lb_uuid book]) s1 = (Inr (), s2)" and
    w: "u_write_to (u_book_path self @ [lb_uuid book, ''metadata''])
          (format_logbook book' (case e_lb of None \<Rightarrow> None | Some _ \<Rightarrow> lb_created_at book')
             (clock s2)) s2 = (Inr (), s')"
    by auto
  have "case e_lb of None \<Rightarrow> True | Some e \<Rightarrow> lb_flows e = []"
    using empty merge_logbook_flows[of e_lb book] m by (cases e_lb) auto
  from book_probe_quiet[OF p this] misc_ensure_tree_frame[OF d] write_to_frame[OF w]
  show "acquired s' = acquired s" by simp
  have ev: "evolves ({q. prefix q (u_book_path self @ [lb_uuid book])} \<union>
                      {u_book_path self @ [lb_uuid book, ''metadata'']}) ({} \<union> {}) (fs s) (fs s')"
    using evolves_trans_union[OF evolves_misc_ensure_tree[OF d] evolves_write_to[OF w]]
      existing_logbook_fs[OF p] by simp
  then show ch: "\<forall>q. node_at (fs s') q \<noteq> node_at (fs s) q \<longrightarrow>
           prefix q (u_book_path self @ [lb_uuid book]) \<or>
           q = u_book_path self @ [lb_uuid book, ''metadata'']"
    using evolves_changes by fastforce
  show "node_at (fs s') (u_book_path self @ [lb_uuid book, ''flows''])
           = node_at (fs s) (u_book_path self @ [lb_uuid book, ''flows''])"
    using ch by force
  show "\<exists>mt d. lstat (fs s') (u_book_path self @ [lb_uuid book, ''metadata''])
           = Inr (File mt d)"
    using write_to_result[OF w] by (simp add: lstat_bind_node_same)
qed

lemma save_logbook_children_present:
  assumes sv: "u_save_logbook self book s = (Inr book', s')" and ne: "lb_flows book' \<noteq> []"
  shows "lstat (fs s') (u_book_path self @ [lb_uuid book, ''flows'']) = Inr Dir"
    and "(Lock_flow, held s) \<in> set (drop (length (acquired s)) (acquired s'))"
proof -
  let ?dir = "u_book_path self @ [lb_uuid book, ''flows'']"
  from save_logbook_success[OF sv] ne obtain e_lb s1 s2 s3 s4 where
    p: "existing_logbook self (lb_uuid book) s = (Inr e_lb, s1)" and
    d: "misc_ensure_tree (u_book_path self @ [lb_uuid book]) s1 = (Inr (), s2)" and
    w: "u_write_to (u_book_path self @ [lb_uuid book, ''metadata''])
          (format_logbook book' (case e_lb of None \<Rightarrow> None | Some _ \<Rightarrow> lb_created_at book')
             (clock s2)) s2 = (Inr (), s3)" and
    t: "misc_ensure_tree ?dir s3 = (Inr (), s4)" and
    l: "u_run_with_process_lock Lock_flow (u_save_flows_and_link self (lb_flows book') ?dir) s4
          = (Inr (), s')"
    by auto
  from lock_success[OF l] obtain s5 where
    loop: "u_save_flows_and_link self (lb_flows book') ?dir (acquire Lock_flow s4) = (Inr (), s5)"
    and s': "s' = release s5" by blast
  show "lstat (fs s') ?dir = Inr Dir"
    using save_flows_and_link_dir[OF loop ne] s' by simp
  obtain evs1 where q1: "held s1 = held s" "acquired s1 = acquired s @ evs1"
    using locks_existing_logbook[OF p] by (auto simp: locks_within_def)
  have q4: "held s4 = held s" "acquired s4 = acquired s @ evs1"
    using q1 misc_ensure_tree_frame[OF d] write_to_frame[OF w] misc_ensure_tree_frame[OF t]
    by simp_all
  obtain evs where "acquired s' = acquired s4 @ (Lock_flow, held s4) # evs"
    using lock_first[OF l, of task_locks] locks_save_flows_and_link by blast
  then show "(Lock_flow, held s) \<in> set (drop (length (acquired s)) (acquired s'))"
    using q4 by simp
qed

subsection \<open>The children of the saved container\<close>

lemma flow_probe_children:
  assumes p: "existing_flow_details self u ig s = (Inr (Some e), s1)"
    and c: "child_links (fs s) (u_flow_path self @ [u, ''tasks'']) = {}"
  shows "fd_tasks e = []"
proof -
  let ?meta = "(u_flow_path self @ [u]) @ [''metadata'']"
  let ?dir = "(u_flow_path self @ [u]) @ [''tasks'']"
  from p have g: "u_get_flow_details_get self u s = (Inr e, s1)"
    by (auto simp: existing_flow_details_def u_get_flow_details_def
        split: prod.splits sum.splits if_splits)
  obtain r0 s0 where rd: "u_read_from ?meta s = (r0, s0)" by (cases "u_read_from ?meta s")
  have fs0: "fs s0 = fs s" using read_from_frame[OF rd] by simp
  from g rd obtain d fd0 l where
    u: "unformat_flow_detail u d = Inr fd0" and
    l: "links_to_load (fs s0) ?dir = Inr l" and
    ld: "load_tasks self fd0 l s0 = (Inr e, s1)"
    by (auto simp: u_get_flow_details_get_def Let_def split: sum.splits)
  have "l = []" using c l fs0 by (simp add: child_links_def)
  then show ?thesis using ld unformat_flow_detail_tasks[OF u] by simp
qed

lemma book_probe_children:
  assumes p: "existing_logbook self u s = (Inr (Some e), s1)"
    and c: "child_links (fs s) (u_book_path self @ [u, ''flows'']) = {}"
  shows "lb_flows e = []"
proof -
  let ?meta = "(u_book_path self @ [u]) @ [''metadata'']"
  let ?dir = "(u_book_path self @ [u]) @ [''flows'']"
  from p have g: "u_get_logbook self u s = (Inr e, s1)"
    by (auto simp: existing_logbook_def split: prod.splits sum.splits if_splits)
  obtain r0 s0 where rd: "u_read_from ?meta s = (r0, s0)" by (cases "u_read_from ?meta s")
  have fs0: "fs s0 = fs s" using read_from_frame[OF rd] by simp
  from g rd obtain d lb0 l where
    u: "unformat_logbook u d = Inr lb0" and
    l: "links_to_load (fs s0) ?dir = Inr l" and
    ld: "load_flows self lb0 l s0 = (Inr e, s1)"
    by (auto simp: u_get_logbook_def Let_def split: sum.splits if_splits)
  have "l = []" using c l fs0 by (simp add: child_links_def)
  then show ?thesis using ld unformat_logbook_flows[OF u] by simp
qed

lemma save_flow_details_saved_children:
  assumes sv: "u_save_flow_details self fd ig s = (Inr fd', s')"
  shows "fd_tasks fd \<noteq> [] \<Longrightarrow> fd_tasks fd' \<noteq> []"
    and "fd_tasks fd = [] \<Longrightarrow>
         child_links (fs s) (u_flow_path self @ [fd_uuid fd, ''tasks'']) = {} \<Longrightarrow>
         fd_tasks fd' = []"
proof -
  from save_flow_details_success[OF sv] obtain e_fd s1 where
    p: "existing_flow_details self (fd_uuid fd) ig s = (Inr e_fd, s1)" and
    m: "fd' = merge_flow_detail e_fd fd"
    by auto
  have un: "td_uuid ` set (fd_tasks fd') =
     (case e_fd of None \<Rightarrow> {} | Some e \<Rightarrow> td_uuid ` set (fd_tasks e)) \<union>
     td_uuid ` set (fd_tasks fd)"
    unfolding m by (rule merge_flow_detail_tasks)
  show "fd_tasks fd' \<noteq> []" if "fd_tasks fd \<noteq> []"
  proof
    assume "fd_tasks fd' = []"
    then have "td_uuid ` set (fd_tasks fd) = {}" using un by simp
    then show False using that by simp
  qed
  show "fd_tasks fd' = []"
    if e: "fd_tasks fd = []"
      and c: "child_links (fs s) (u_flow_path self @ [fd_uuid fd, ''tasks'']) = {}"
  proof (cases e_fd)
    case None
    then show ?thesis using un e by simp
  next
    case (Some e0)
    have "fd_tasks e0 = []" using flow_probe_children[OF p[unfolded Some] c] .
    then show ?thesis using un e Some by simp
  qed
qed

lemma save_logbook_saved_children:
  assumes sv: "u_save_logbook self book s = (Inr book', s')"
  shows "lb_flows book \<noteq> [] \<Longrightarrow> lb_flows book' \<noteq> []"
    and "lb_flows book = [] \<Longrightarrow>
         child_links (fs s) (u_book_path self @ [lb_uuid book, ''flows'']) = {} \<Longrightarrow>
         lb_flows book' = []"
proof -
  from save_logbook_success[OF sv] obtain e_lb s1 where
    p: "existing_logbook self (lb_uuid book) s = (Inr e_lb, s1)" and
    m: "book' = merge_logbook e_lb book"
    by auto
  have un: "fd_uuid ` set (lb_flows book') =
     (case e_lb of None \<Rightarrow> {} | Some e \<Rightarrow> fd_uuid ` set (lb_flows e)) \<union>
     fd_uuid ` set (lb_flows book)"
    unfolding m by (rule merge_logbook_flows)
  show "lb_flows book' \<noteq> []" if "lb_flows book \<noteq> []"
  proof
    assume "lb_flows book' = []"
    then have "fd_uuid ` set (lb_flows book) = {}" using un by simp
    then show False using that by simp
  qed
  show "lb_flows book' = []"
    if e: "lb_flows book = []"
      and c: "child_links (fs s) (u_book_path self @ [lb_uuid book, ''flows'']) = {}"
  proof (cases e_lb)
    case None
    then show ?thesis using un e by simp
  next
    case (Some e0)
    have "lb_flows e0 = []" using book_probe_children[OF p[unfolded Some] c] .
    then show ?thesis using un e Some by simp
  qed
qed

text \<open>
  Claim C9, as the code has it. The branch of \<open>_save_flow_details\<close> and of
  \<open>_save_logbook\<close> tests the children of the merged entity (the stored version with the
  incoming children added), which is the entity the save writes and returns. For every
  save that returns: an incoming entity with children gives a merged entity with children;
  an incoming entity without children, saved where the child-index directory of the store
  lists no link, gives a merged entity without children. When the merged entity has no
  children, no lock at all is acquired, the child-index path (\<open>tasks\<close> for a flow,
  \<open>flows\<close> for a book) is bound to what it was bound to before, the only paths whose
  binding changes are the entity directory, its ancestors and the metadata file, and the
  metadata file exists afterwards. When the merged entity has at least one child, the
  child-index path is a directory afterwards and the inner tier's lock (the task lock for
  a flow, the flow lock for a book) was acquired during the save, under the locks held at
  its start. So an entity without children that is saved over a stored version with
  children does take the inner lock, and writes its stored children again.
\<close>

theorem empty_container_writes_metadata_only:
  "(u_save_flow_details self fd ig s = (Inr fd', s') \<longrightarrow>
      (fd_tasks fd \<noteq> [] \<longrightarrow> fd_tasks fd' \<noteq> []) \<and>
      (fd_tasks fd = [] \<and>
       child_links (fs s) (u_flow_path self @ [fd_uuid fd, ''tasks'']) = {} \<longrightarrow>
         fd_tasks fd' = []) \<and>
      (fd_tasks fd' = [] \<longrightarrow>
         acquired s' = acquired s \<and>
         node_at (fs s') (u_flow_path self @ [fd_uuid fd, ''tasks''])
           = node_at (fs s) (u_flow_path self @ [fd_uuid fd, ''tasks'']) \<and>
         (\<forall>q. node_at (fs s') q \<noteq> node_at (fs s) q \<longrightarrow>
            prefix q (u_flow_path self @ [fd_uuid fd]) \<or>
            q = u_flow_path self @ [fd_uuid fd, ''metadata'']) \<and>
         (\<exists>mt. lstat (fs s') (u_flow_path self @ [fd_uuid fd, ''metadata''])
            = Inr (File mt (format_flow_detail fd')))) \<and>
      (fd_tasks fd' \<noteq> [] \<longrightarrow>
         lstat (fs s') (u_flow_path self @ [fd_uuid fd, ''tasks'']) = Inr Dir \<and>
         (Lock_task, held s) \<in> set (drop (length (acquired s)) (acquired s')))) \<and>
   (u_save_logbook self book t = (Inr book', t') \<longrightarrow>
      (lb_flows book \<noteq> [] \<longrightarrow> lb_flows book' \<noteq> []) \<and>
      (lb_flows book = [] \<and>
       child_links (fs t) (u_book_path self @ [lb_uuid book, ''flows'']) = {} \<longrightarrow>
         lb_flows book' = []) \<and>
      (lb_flows book' = [] \<longrightarrow>
         acquired t' = acquired t \<and>
         node_at (fs t') (u_book_path self @ [lb_uuid book, ''flows''])
           = node_at (fs t) (u_book_path self @ [lb_uuid book, ''flows'']) \<and>
         (\<forall>q. node_at (fs t') q \<noteq> node_at (fs t) q \<longrightarrow>
            prefix q (u_book_path self @ [lb_uuid book]) \<or>
            q = u_book_path self @ [lb_uuid book, ''metadata'']) \<and>
         (\<exists>mt d. lstat (fs t') (u_book_path self @ [lb_uuid book, ''metadata''])
            = Inr (File mt d))) \<and>
      (lb_flows book' \<noteq> [] \<longrightarrow>
         lstat (fs t') (u_book_path self @ [lb_uuid book, ''flows'']) = Inr Dir \<and>
         (Lock_flow, held t) \<in> set (drop (length (acquired t)) (acquired t'))))"
proof -
  have flow: "(fd_tasks fd \<noteq> [] \<longrightarrow> fd_tasks fd' \<noteq> []) \<and>
      (fd_tasks fd = [] \<and>
       child_links (fs s) (u_flow_path self @ [fd_uuid fd, ''tasks'']) = {} \<longrightarrow>
         fd_tasks fd' = []) \<and>
      (fd_tasks fd' = [] \<longrightarrow>
         acquired s' = acquired s \<and>
         node_at (fs s') (u_flow_path self @ [fd_uuid fd, ''tasks''])
           = node_at (fs s) (u_flow_path self @ [fd_uuid fd, ''tasks'']) \<and>
         (\<forall>q. node_at (fs s') q \<noteq> node_at (fs s) q \<longrightarrow>
            prefix q (u_flow_path self @ [fd_uuid fd]) \<or>
            q = u_flow_path self @ [fd_uuid fd, ''metadata'']) \<and>
         (\<exists>mt. lstat (fs s') (u_flow_path self @ [fd_uuid fd, ''metadata''])
            = Inr (File mt (format_flow_detail fd')))) \<and>
      (fd_tasks fd' \<noteq> [] \<longrightarrow>
         lstat (fs s') (u_flow_path self @ [fd_uuid fd, ''tasks'']) = Inr Dir \<and>
         (Lock_task, held s) \<in> set (drop (length (acquired s)) (acquired s')))"
    if sv: "u_save_flow_details self fd ig s = (Inr fd', s')"
    using save_flow_details_saved_children[OF sv] save_flow_details_empty[OF sv]
      save_flow_details_children_present[OF sv]
    by blast
  have book: "(lb_flows book \<noteq> [] \<longrightarrow> lb_flows book' \<noteq> []) \<and>
      (lb_flows book = [] \<and>
       child_links (fs t) (u_book_path self @ [lb_uuid book, ''flows'']) = {} \<longrightarrow>
         lb_flows book' = []) \<and>
      (lb_flows book' = [] \<longrightarrow>
         acquired t' = acquired t \<and>
         node_at (fs t') (u_book_path self @ [lb_uuid book, ''flows''])
           = node_at (fs t) (u_book_path self @ [lb_uuid book, ''flows'']) \<and>
         (\<forall>q. node_at (fs t') q \<noteq> node_at (fs t) q \<longrightarrow>
            prefix q (u_book_path self @ [lb_uuid book]) \<or>
            q = u_book_path self @ [lb_uuid book, ''metadata'']) \<and>
         (\<exists>mt d. lstat (fs t') (u_book_path self @ [lb_uuid book, ''metadata''])
            = Inr (File mt d))) \<and>
      (lb_flows book' \<noteq> [] \<longrightarrow>
         lstat (fs t') (u_book_path self @ [lb_uuid book, ''flows'']) = Inr Dir \<and>
         (Lock_flow, held t) \<in> set (drop (length (acquired t)) (acquired t')))"
    if sv: "u_save_logbook self book t = (Inr book', t')"
    using save_logbook_saved_children[OF sv] save_logbook_empty[OF sv]
      save_logbook_children_present[OF sv]
    by blast
  show ?thesis using flow book by blast
qed

text \<open>Saving a flow without tasks on a fresh storage root takes no lock and leaves the
  path of the child index free; saving a book with a flow makes the child index and takes
  the flow lock; saving the flow without tasks over the stored flow with the tasks \<open>A\<close>
  and \<open>B\<close> returns a flow with tasks, and the task lock is taken.\<close>

theorem empty_container_writes_metadata_only_witness:
  "\<not> isl (fst (u_save_flow_details example_conn example_flow_empty True example_fresh)) \<and>
   fd_tasks example_flow_empty = [] \<and>
   child_links (fs example_fresh) [''r'', ''flows'', ''F1'', ''tasks''] = {} \<and>
   fd_tasks (projr (fst (u_save_flow_details example_conn example_flow_empty True example_fresh)))
     = [] \<and>
   acquired (snd (u_save_flow_details example_conn example_flow_empty True example_fresh)) = [] \<and>
   lstat (fs (snd (u_save_flow_details example_conn example_flow_empty True example_fresh)))
     [''r'', ''flows'', ''F1'', ''tasks''] = Inl ENOENT \<and>
   lstat (fs (snd (u_save_flow_details example_conn example_flow_empty True example_fresh)))
     [''r'', ''flows'', ''F1'', ''metadata''] = Inr (File 5 (FlowDoc ''fm'')) \<and>
   \<not> isl (fst (u_save_logbook example_conn example_book example_fresh)) \<and>
   lb_flows example_book \<noteq> [] \<and>
   lb_flows (projr (fst (u_save_logbook example_conn example_book example_fresh))) \<noteq> [] \<and>
   lstat (fs (snd (u_save_logbook example_conn example_book example_fresh)))
     [''r'', ''books'', ''B1'', ''flows''] = Inr Dir \<and>
   (Lock_flow, []) \<in> set (acquired (snd (u_save_logbook example_conn example_book example_fresh))) \<and>
   \<not> isl (fst (u_save_flow_details example_conn example_flow_empty True example_flow_ab)) \<and>
   fd_tasks (projr (fst (u_save_flow_details example_conn example_flow_empty True example_flow_ab)))
     \<noteq> [] \<and>
   (Lock_task, []) \<in> set (drop (length (acquired example_flow_ab))
      (acquired (snd (u_save_flow_details example_conn example_flow_empty True example_flow_ab))))"
proof -
  let ?f = "u_save_flow_details example_conn example_flow_empty True example_fresh"
  let ?b = "u_save_logbook example_conn example_book example_fresh"
  let ?g = "u_save_flow_details example_conn example_flow_empty True example_flow_ab"
  have okf: "\<not> isl (fst ?f)" by code_simp
  then have runf: "?f = (Inr (projr (fst ?f)), snd ?f)" by (simp add: prod_eq_iff)
  have okb: "\<not> isl (fst ?b)" by code_simp
  then have runb: "?b = (Inr (projr (fst ?b)), snd ?b)" by (simp add: prod_eq_iff)
  have okg: "\<not> isl (fst ?g)" by code_simp
  then have rung: "?g = (Inr (projr (fst ?g)), snd ?g)" by (simp add: prod_eq_iff)
  have ef: "fd_tasks example_flow_empty = []" by (simp add: example_flow_empty_def)
  have nl: "child_links (fs example_fresh) [''r'', ''flows'', ''F1'', ''tasks''] = {}"
    by code_simp
  have nb: "lb_flows example_book \<noteq> []" by (simp add: example_book_def)
  have ng: "fd_tasks (projr (fst ?g)) \<noteq> []" by code_simp
  have absent: "lstat (fs (snd ?f)) [''r'', ''flows'', ''F1'', ''tasks''] = Inl ENOENT"
    by code_simp
  have meta: "lstat (fs (snd ?f)) [''r'', ''flows'', ''F1'', ''metadata'']
      = Inr (File 5 (FlowDoc ''fm''))"
    by code_simp
  have start: "acquired example_fresh = []" "held example_fresh = []"
    by (simp_all add: example_fresh_def)
  have startg: "held example_flow_ab = []" by code_simp
  have pf: "u_flow_path example_conn @ [fd_uuid example_flow_empty, ''tasks'']
      = [''r'', ''flows'', ''F1'', ''tasks'']"
    by (simp add: u_flow_path_def example_conn_def example_flow_empty_def)
  have pb: "u_book_path example_conn @ [lb_uuid example_book, ''flows'']
      = [''r'', ''books'', ''B1'', ''flows'']"
    by (simp add: u_book_path_def example_conn_def example_book_def)
  note fresh = empty_container_writes_metadata_only[of example_conn example_flow_empty True
      example_fresh "projr (fst ?f)" "snd ?f" example_book example_fresh
      "projr (fst ?b)" "snd ?b"]
  note stored = empty_container_writes_metadata_only[of example_conn example_flow_empty True
      example_flow_ab "projr (fst ?g)" "snd ?g" example_book example_fresh
      "projr (fst ?b)" "snd ?b"]
  have emptyf: "fd_tasks (projr (fst ?f)) = []"
    using fresh runf ef nl pf by simp
  have quiet: "acquired (snd ?f) = []"
    using fresh runf emptyf start by simp
  have fullb: "lb_flows (projr (fst ?b)) \<noteq> []"
    using fresh runb nb by simp
  have dir: "lstat (fs (snd ?b)) [''r'', ''books'', ''B1'', ''flows''] = Inr Dir"
    using fresh runb fullb pb by simp
  have lock: "(Lock_flow, []) \<in> set (acquired (snd ?b))"
    using fresh runb fullb start by simp
  have lockg: "(Lock_task, []) \<in> set (drop (length (acquired example_flow_ab)) (acquired (snd ?g)))"
    using stored rung ng startg by simp
  show ?thesis
    using okf ef nl emptyf quiet absent meta okb nb fullb dir lock okg ng lockg by blast
qed

text \<open>Saving the flow without tasks over the stored flow with the tasks \<open>A\<close> and \<open>B\<close>
  takes the task lock three times (twice to load the stored tasks, once to save the tasks
  of the merged flow) and writes the file of task \<open>A\<close> again; saving the book without
  flows over the stored book with a flow takes the flow lock and the task lock, and writes
  the metadata file of the stored flow again.\<close>

theorem empty_container_writes_metadata_only_counterexample:
  "fd_tasks example_flow_empty = [] \<and>
   \<not> isl (fst (u_save_flow_details example_conn example_flow_empty True
                 (example_flow_ab\<lparr>clock := 7\<rparr>))) \<and>
   acquired (snd (u_save_flow_details example_conn example_flow_empty True
                    (example_flow_ab\<lparr>clock := 7\<rparr>)))
     = acquired example_flow_ab @ [(Lock_task, []), (Lock_task, []), (Lock_task, [])] \<and>
   lstat (fs example_flow_ab) [''r'', ''tasks'', ''A''] = Inr (File 5 (TaskDoc ''s'' ''r'' ''m'')) \<and>
   lstat (fs (snd (u_save_flow_details example_conn example_flow_empty True
                     (example_flow_ab\<lparr>clock := 7\<rparr>)))) [''r'', ''tasks'', ''A'']
     = Inr (File 7 (TaskDoc ''s'' ''r'' ''m'')) \<and>
   lb_flows example_book_empty = [] \<and>
   \<not> isl (fst (u_save_logbook example_conn example_book_empty (example_stored\<lparr>clock := 7\<rparr>))) \<and>
   acquired (snd (u_save_logbook example_conn example_book_empty (example_stored\<lparr>clock := 7\<rparr>)))
     = acquired example_stored @
       [(Lock_flow, []), (Lock_task, [Lock_flow]),
        (Lock_flow, []), (Lock_task, [Lock_flow]), (Lock_task, [Lock_flow])] \<and>
   lstat (fs example_stored) [''r'', ''flows'', ''F1'', ''metadata'']
     = Inr (File 5 (FlowDoc ''fm'')) \<and>
   lstat (fs (snd (u_save_logbook example_conn example_book_empty (example_stored\<lparr>clock := 7\<rparr>))))
       [''r'', ''flows'', ''F1'', ''metadata'']
     = Inr (File 7 (FlowDoc ''fm''))"
proof -
  let ?f = "u_save_flow_details example_conn example_flow_empty True
              (example_flow_ab\<lparr>clock := 7\<rparr>)"
  let ?b = "u_save_logbook example_conn example_book_empty (example_stored\<lparr>clock := 7\<rparr>)"
  have a: "fd_tasks example_flow_empty = []" by (simp add: example_flow_empty_def)
  have b: "\<not> isl (fst ?f)" by code_simp
  have c: "acquired (snd ?f)
     = acquired example_flow_ab @ [(Lock_task, []), (Lock_task, []), (Lock_task, [])]"
    by code_simp
  have d: "lstat (fs example_flow_ab) [''r'', ''tasks'', ''A'']
     = Inr (File 5 (TaskDoc ''s'' ''r'' ''m''))"
    by code_simp
  have e: "lstat (fs (snd ?f)) [''r'', ''tasks'', ''A''] = Inr (File 7 (TaskDoc ''s'' ''r'' ''m''))"
    by code_simp
  have f: "lb_flows example_book_empty = []" by (simp add: example_book_empty_def)
  have g: "\<not> isl (fst ?b)" by code_simp
  have h: "acquired (snd ?b)
     = acquired example_stored @
       [(Lock_flow, []), (Lock_task, [Lock_flow]),
        (Lock_flow, []), (Lock_task, [Lock_flow]), (Lock_task, [Lock_flow])]"
    by code_simp
  have i: "lstat (fs example_stored) [''r'', ''flows'', ''F1'', ''metadata'']
     = Inr (File 5 (FlowDoc ''fm''))"
    by code_simp
  have j: "lstat (fs (snd ?b)) [''r'', ''flows'', ''F1'', ''metadata'']
     = Inr (File 7 (FlowDoc ''fm''))"
    by code_simp
  show ?thesis using a b c d e f g h i j by blast
qed

end
